theory Spec2Isabelle
  imports Main "HOL-Library.Word" "HOL-Library.AList"
begin

section \<open>Data model of the sparse Merkle tree engine\<close>

text \<open>
  Byte slices are lists of 8-bit words. Go's \<open>int64\<close> revisions and tree ids are only
  compared and copied, so they are mathematical integers; \<open>big.Int\<close> indices are
  integers as well.
\<close>

type_synonym bytes = "8 word list"

text \<open>\<open>storage.NodeID\<close>: the byte path and the number of leading bits that count.\<close>

record NodeID =
  Path :: bytes
  PrefixLenBits :: nat

text \<open>\<open>storage.Node\<close>.\<close>

record Node =
  NodeID :: NodeID
  Hash :: bytes
  NodeRevision :: int

text \<open>\<open>indexAndHash\<close> and \<open>HStar2LeafHash\<close>.\<close>

record indexAndHash =
  index :: bytes
  hash :: bytes

record HStar2LeafHash =
  Index :: int
  LeafHash :: bytes

text \<open>
  Errors as values. \<open>StorageError c\<close> stands for whatever the storage backend or an
  injected callback reports (the number is an opaque cause); the other constructors are
  the errors the file itself builds with \<open>errors.New\<close> and \<open>fmt.Errorf\<close>, with the
  values their messages are formatted from; \<open>HStar2Error\<close> is an error of the HStar2
  implementation's own; the \<open>Panic\<close> constructors are Go run-time panics.
\<close>

datatype error =
    ErrNoSuchRevision
  | StorageError nat
  | DepthWantAtLeast nat nat
  | ExpectedOneNode nat
  | UnexpectedNodeID NodeID
  | UnexpectedNodeRevision int int
  | GotNodeWant NodeID NodeID
  | GotNodeRevision int int
  | FailedToConsume nat nat
  | HStar2Error nat
  | PanicIndexOutOfRange
  | PanicMakeChanSize

subsection \<open>Node addressing\<close>

text \<open>The bits of a byte, most significant first, and of a byte path.\<close>

definition byte_bits :: "8 word \<Rightarrow> bool list" where
  "byte_bits b = map (bit b) [7, 6, 5, 4, 3, 2, 1, 0]"

definition path_bits :: "bytes \<Rightarrow> bool list" where
  "path_bits p = concat (map byte_bits p)"

text \<open>The bit-string prefix that addresses the node.\<close>

definition prefix_bits :: "NodeID \<Rightarrow> bool list" where
  "prefix_bits n = take (PrefixLenBits n) (path_bits (Path n))"

text \<open>
  Modelled from the spec: \<open>storage.NewEmptyNodeID\<close> is in the storage package, which is
  not part of the sources at hand. The root-level node has \<open>prefixLenBits == 0\<close>; its
  path has \<open>maxLenBits / 8\<close> bytes, all zero (the trailing unused bits are zero).
\<close>

definition NewEmptyNodeID :: "nat \<Rightarrow> NodeID" where
  "NewEmptyNodeID maxLenBits = \<lparr>Path = replicate (maxLenBits div 8) 0, PrefixLenBits = 0\<rparr>"

text \<open>
  Modelled from the spec: \<open>NodeID.Equivalent\<close> is in the storage package, which is not
  part of the sources at hand. It compares prefix and length.
\<close>

definition Equivalent :: "NodeID \<Rightarrow> NodeID \<Rightarrow> bool" where
  "Equivalent n other \<longleftrightarrow>
     PrefixLenBits n = PrefixLenBits other \<and> prefix_bits n = prefix_bits other"

text \<open>
  Modelled from the spec: \<open>storage.NewNodeIDFromHash\<close> is in the storage package, which
  is not part of the sources at hand. It constructs the id from a raw \<open>D\<close>-bit hash: the
  hash is the path and all its bits count.
\<close>

definition NewNodeIDFromHash :: "bytes \<Rightarrow> NodeID" where
  "NewNodeIDFromHash h = \<lparr>Path = h, PrefixLenBits = 8 * length h\<rparr>"

text \<open>A byte from up to eight bits, most significant first, and a path of \<open>m\<close> bytes
  from a bit string; bits that are not given are zero.\<close>

definition byte_of_bits :: "bool list \<Rightarrow> 8 word" where
  "byte_of_bits bs =
     foldl (\<lambda>w b. 2 * w + (if b then 1 else 0)) 0 (take 8 (bs @ replicate 8 False))"

definition pack_bits :: "nat \<Rightarrow> bool list \<Rightarrow> bytes" where
  "pack_bits m bs = map (\<lambda>i. byte_of_bits (take 8 (drop (8 * i) bs))) [0..<m]"

text \<open>
  Modelled from the spec: \<open>NodeID.Siblings\<close> is in the storage package, which is not
  part of the sources at hand. Siblings differ in the last bit of their prefix, and the
  trailing unused bits of a path are zero: \<open>sibling_at n k\<close> is the sibling of the node
  on the path of \<open>n\<close> at depth \<open>k\<close>. \<open>Siblings\<close> returns the sibling ids along the
  path from leaf to root, index 0 the sibling of the leaf level, the last index the
  sibling of the root's child.
\<close>

definition sibling_at :: "NodeID \<Rightarrow> nat \<Rightarrow> NodeID" where
  "sibling_at n k =
     (let p = take k (path_bits (Path n))
      in \<lparr>Path = pack_bits (length (Path n)) (butlast p @ [\<not> last p]), PrefixLenBits = k\<rparr>)"

definition Siblings :: "NodeID \<Rightarrow> NodeID list" where
  "Siblings n = map (sibling_at n) (rev [1..<Suc (PrefixLenBits n)])"

text \<open>
  Modelled from the spec: \<open>NodeID.String\<close>, the key under which the reader files a node,
  is in the storage package, which is not part of the sources at hand. A node is addressed
  by its bit-string prefix; the key is that bit string, written with the characters
  \<open>0\<close> and \<open>1\<close>.
\<close>

definition String :: "NodeID \<Rightarrow> string" where
  "String n = map (\<lambda>b. if b then CHR ''1'' else CHR ''0'') (prefix_bits n)"

section \<open>The reader\<close>

text \<open>
  \<open>SparseMerkleTreeReader\<close>. The read-only transaction is the one operation the reader
  calls on it, \<open>GetMerkleNodes(ctx, rev, ids)\<close>, which returns nodes or an error of the
  backend. The backend's error is its own value (an opaque cause \<open>c\<close>), handed on
  unchanged as \<open>StorageError c\<close>: the storage layer does not produce the sentinels
  and formatted errors of this file.
\<close>

record SparseMerkleTreeReader =
  tx :: "int \<Rightarrow> NodeID list \<Rightarrow> nat + Node list"
  readerRevision :: int

definition RootAtRevision :: "SparseMerkleTreeReader \<Rightarrow> int \<Rightarrow> error + bytes" where
  "RootAtRevision s rv =
     (let rootNodeID = NewEmptyNodeID 256 in
      case tx s rv [rootNodeID] of
        Inl err \<Rightarrow> Inl (StorageError err)
      | Inr nodes \<Rightarrow>
          (case nodes of
             [] \<Rightarrow> Inl ErrNoSuchRevision
           | n # rest \<Rightarrow>
               if length nodes > 1 then Inl (ExpectedOneNode (length nodes))
               else if \<not> Equivalent (NodeID n) rootNodeID then Inl (UnexpectedNodeID (NodeID n))
               else if NodeRevision n > rv then Inl (UnexpectedNodeRevision (NodeRevision n) rv)
               else Inr (Hash n)))"

text \<open>The errors of the sanity checks on what storage returned.\<close>

fun InconsistentStorage :: "error \<Rightarrow> bool" where
  "InconsistentStorage (ExpectedOneNode _) = True"
| "InconsistentStorage (UnexpectedNodeID _) = True"
| "InconsistentStorage (UnexpectedNodeRevision _ _) = True"
| "InconsistentStorage _ = False"

text \<open>
  The loop of \<open>InclusionProof\<close> over the proof elements: the elements, \<open>None\<close> where
  \<open>r[i]\<close> stays \<open>nil\<close>, and the node map with the nodes used deleted. The map from
  key to node is an association list with one entry a key.
\<close>

fun proof_elements ::
  "NodeID list \<Rightarrow> (string \<times> Node) list \<Rightarrow> bytes option list \<times> (string \<times> Node) list" where
  "proof_elements [] nodeMap = ([], nodeMap)"
| "proof_elements (proofID # sibs) nodeMap =
     (case map_of nodeMap (String proofID) of
        None \<Rightarrow> (case proof_elements sibs nodeMap of (r, m) \<Rightarrow> (None # r, m))
      | Some pNode \<Rightarrow>
          (case proof_elements sibs (AList.delete (String proofID) nodeMap) of
             (r, m) \<Rightarrow> (Some (Hash pNode) # r, m)))"

definition InclusionProof ::
  "SparseMerkleTreeReader \<Rightarrow> int \<Rightarrow> bytes \<Rightarrow> error + bytes option list" where
  "InclusionProof s rv idx =
     (let nid = NewNodeIDFromHash idx;
          sibs = Siblings nid
      in case tx s rv sibs of
           Inl c \<Rightarrow> Inl (StorageError c)
         | Inr nodes \<Rightarrow>
             (let nodeMap = foldl (\<lambda>m n. AList.update (String (NodeID n)) n m) [] nodes
              in case proof_elements sibs nodeMap of
                   (r, remaining) \<Rightarrow>
                     if length remaining \<noteq> 0
                       then Inl (FailedToConsume (length nodes) (length remaining))
                     else Inr r))"

text \<open>The node storage returned for a sibling: the last one it returned under its key.\<close>

definition returned_for :: "Node list \<Rightarrow> NodeID \<Rightarrow> Node option" where
  "returned_for nodes sib = find (\<lambda>n. String (NodeID n) = String sib) (rev nodes)"

section \<open>The subtree writer\<close>

subsection \<open>Queue sizing\<close>

text \<open>
  \<open>leafQueueSize\<close>. Stratum depths are the positive integers of a stratum plan, so
  they are natural numbers here; the result is a Go \<open>int\<close>, taken as 64 bits wide:
  \<open>1 << uint(depths[0])\<close> is a shift of a 64-bit word, read back signed. Indexing
  an empty slice panics.
\<close>

definition leafQueueSize :: "nat list \<Rightarrow> error + int" where
  "leafQueueSize depths =
     (if length depths = 1 then Inr 1024
      else case depths of
             [] \<Rightarrow> Inl PanicIndexOutOfRange
           | d # _ \<Rightarrow> Inr (sint (push_bit d (1 :: 64 word))))"

subsection \<open>Workers\<close>

text \<open>
  \<open>rootHashOrError\<close>: a hash or an error; \<open>None\<close> is Go's \<open>nil\<close>. The root channel
  is a buffered channel of capacity 1: its buffer and whether it has been closed.
\<close>

record rootHashOrError =
  root_hash :: "bytes option"
  err :: "error option"

record chan =
  buf :: "rootHashOrError list"
  closed :: bool

text \<open>
  The two kinds of closure that are put on a leaf queue: the one built in \<open>SetLeaf\<close>,
  which yields the index and hash it captured, and the one built in
  \<open>getOrCreateChildSubtree\<close>, which waits for the root of the child at the captured
  prefix.
\<close>

datatype producer =
    LeafProducer bytes bytes
  | ChildRootProducer bytes

text \<open>
  \<open>subtreeWriter\<close>, as it is between its construction and \<open>CalculateRoot\<close>, while
  its leaf queue is open. The leaf queue is the list of producers sent so far, oldest
  first, with the capacity it was made with; the worker's own task receives from it
  concurrently, so a send is an append. \<open>children\<close> is the map from child prefix to
  child worker, in insertion order. \<open>depths\<close> is the stratum plan from this worker
  downwards, which the \<open>getSubtree\<close> closure captured together with the prefix.
\<close>

datatype subtreeWriter = SubtreeWriter
  (treeID: int)
  (prefix: bytes)
  (subtreeDepth: nat)
  (leafQueue: "producer list")
  (queueCap: int)
  (root: chan)
  (children: "(bytes \<times> subtreeWriter) list")
  (treeRevision: int)
  (depths: "nat list")

definition make_root_chan :: chan where
  "make_root_chan = \<lparr>buf = [], closed = False\<rparr>"

text \<open>
  \<open>make\<close> of a buffered channel, as the Go runtime does it on a 64-bit Linux target
  (\<open>makechan\<close>): it panics with \<open>makechan: size out of range\<close> when the size is
  negative, and when the buffer of \<open>n\<close> elements of \<open>elemSize\<close> bytes does not fit
  under \<open>maxAlloc - hchanSize\<close>: the most the allocator hands out, \<open>2 ^ 48\<close> bytes,
  less the channel's header of 96 bytes. The product is taken without wrap-around here; one
  that overflows the machine word is out of range as well. Whether the machine has the
  memory for a buffer within that bound is outside the model: an allocation that fails
  ends the process.
\<close>

definition maxAlloc :: int where
  "maxAlloc = 2 ^ 48"

definition hchanSize :: int where
  "hchanSize = 96"

definition makechan :: "int \<Rightarrow> int \<Rightarrow> error + int" where
  "makechan elemSize n =
     (if n < 0 \<or> elemSize * n > maxAlloc - hchanSize then Inl PanicMakeChanSize
      else Inr n)"

text \<open>
  \<open>newLocalSubtreeWriter\<close>: \<open>depths[0]\<close> panics on an empty plan, and \<open>make\<close>
  panics on a channel size that is out of range. An element of the leaf queue is a
  function value, one word of 8 bytes.
\<close>

definition newLocalSubtreeWriter ::
  "int \<Rightarrow> int \<Rightarrow> bytes \<Rightarrow> nat list \<Rightarrow> error + subtreeWriter" where
  "newLocalSubtreeWriter tid rv pfx ds =
     (case ds of
        [] \<Rightarrow> Inl PanicIndexOutOfRange
      | d # _ \<Rightarrow>
          (case leafQueueSize ds of
             Inl e \<Rightarrow> Inl e
           | Inr n \<Rightarrow>
               (case makechan 8 n of
                  Inl e \<Rightarrow> Inl e
                | Inr c \<Rightarrow> Inr (SubtreeWriter tid pfx d [] c make_root_chan [] rv ds))))"

text \<open>The \<open>getSubtree\<close> closure of a worker: the child's prefix is joined to its own.\<close>

definition getSubtree :: "subtreeWriter \<Rightarrow> bytes \<Rightarrow> error + subtreeWriter" where
  "getSubtree s p =
     newLocalSubtreeWriter (treeID s) (treeRevision s) (prefix s @ p) (tl (depths s))"

text \<open>
  \<open>getOrCreateChildSubtree\<close> returns the child and the worker as it leaves it: a new
  child is entered in the map and a producer for its root is put on the leaf queue.
\<close>

definition getOrCreateChildSubtree ::
  "subtreeWriter \<Rightarrow> bytes \<Rightarrow> error + (subtreeWriter \<times> subtreeWriter)" where
  "getOrCreateChildSubtree s childPrefix =
     (case map_of (children s) childPrefix of
        Some subtree \<Rightarrow> Inr (subtree, s)
      | None \<Rightarrow>
          (case getSubtree s childPrefix of
             Inl e \<Rightarrow> Inl e
           | Inr subtree \<Rightarrow>
               Inr (subtree,
                    SubtreeWriter (treeID s) (prefix s) (subtreeDepth s)
                      (leafQueue s @ [ChildRootProducer childPrefix]) (queueCap s) (root s)
                      (children s @ [(childPrefix, subtree)]) (treeRevision s) (depths s))))"

text \<open>
  The child worker is shared by reference: what a delegated call does to it is seen
  through the parent's map.
\<close>

definition set_child :: "subtreeWriter \<Rightarrow> bytes \<Rightarrow> subtreeWriter \<Rightarrow> subtreeWriter" where
  "set_child s k c =
     SubtreeWriter (treeID s) (prefix s) (subtreeDepth s) (leafQueue s) (queueCap s) (root s)
       (AList.update k c (children s)) (treeRevision s) (depths s)"

definition enqueue :: "subtreeWriter \<Rightarrow> producer \<Rightarrow> subtreeWriter" where
  "enqueue s p =
     SubtreeWriter (treeID s) (prefix s) (subtreeDepth s) (leafQueue s @ [p]) (queueCap s)
       (root s) (children s) (treeRevision s) (depths s)"

text \<open>The measure under which \<open>SetLeaf\<close> descends: plan length plus the workers below.\<close>

fun plan_weight :: "subtreeWriter \<Rightarrow> nat" where
  "plan_weight (SubtreeWriter tid pfx d q qc r cs rv ds) =
     Suc (length ds + sum_list (map (\<lambda>kc. plan_weight (snd kc)) cs))"

lemma plan_weight_child:
  "map_of cs k = Some c \<Longrightarrow> plan_weight c \<le> sum_list (map (\<lambda>kc. plan_weight (snd kc)) cs)"
  by (induction cs) (auto split: if_splits)

lemma getOrCreateChildSubtree_weight:
  assumes "getOrCreateChildSubtree s k = Inr (c, s')"
  shows "plan_weight c < plan_weight s"
proof (cases "map_of (children s) k")
  case (Some c')
  with assms have "c' = c" by (simp add: getOrCreateChildSubtree_def)
  with Some plan_weight_child [of "children s" k c] show ?thesis
    by (cases s) auto
next
  case None
  with assms obtain d ds n where "depths s = d # ds"
    and "c = SubtreeWriter (treeID s) (prefix s @ k) (hd ds) [] n make_root_chan []
               (treeRevision s) ds"
    by (cases "depths s"; cases "tl (depths s)")
       (auto simp: getOrCreateChildSubtree_def getSubtree_def newLocalSubtreeWriter_def
             split: sum.splits if_splits list.splits)
  then show ?thesis by (cases s) auto
qed

text \<open>
  \<open>SetLeaf\<close> returns the error (\<open>None\<close> is \<open>nil\<close>) and the worker as the call leaves
  it.
\<close>

function SetLeaf :: "subtreeWriter \<Rightarrow> bytes \<Rightarrow> bytes \<Rightarrow> error option \<times> subtreeWriter" where
  "SetLeaf s idx h =
     (let depth = length idx * 8;
          absSubtreeDepth = length (prefix s) * 8 + subtreeDepth s
      in if depth < absSubtreeDepth then (Some (DepthWantAtLeast depth absSubtreeDepth), s)
         else if depth > absSubtreeDepth then
           (let childPrefix = take (absSubtreeDepth div 8) idx in
            case getOrCreateChildSubtree s childPrefix of
              Inl e \<Rightarrow> (Some e, s)
            | Inr (subtree, s') \<Rightarrow>
                (case SetLeaf subtree idx h of
                   (e, subtree') \<Rightarrow> (e, set_child s' childPrefix subtree')))
         else (None, enqueue s (LeafProducer idx h)))"
  by pat_completeness auto
termination
  by (relation "measure (\<lambda>(s, idx, h). plan_weight s)")
     (auto dest: getOrCreateChildSubtree_weight)

declare SetLeaf.simps [simp del]

text \<open>\<open>HashKeyValue\<close> and \<open>SparseMerkleTreeWriter.SetLeaves\<close>, on the writer's tree.\<close>

record HashKeyValue =
  HashedKey :: bytes
  HashedValue :: bytes

fun SetLeaves :: "subtreeWriter \<Rightarrow> HashKeyValue list \<Rightarrow> error option \<times> subtreeWriter" where
  "SetLeaves tree [] = (None, tree)"
| "SetLeaves tree (l # leaves) =
     (case SetLeaf tree (HashedKey l) (HashedValue l) of
        (Some e, tree') \<Rightarrow> (Some e, tree')
      | (None, tree') \<Rightarrow> SetLeaves tree' leaves)"

subsection \<open>The root channel\<close>

text \<open>
  A send that cannot complete, because the buffer of one slot is full (it blocks) or the
  channel is closed (it panics), is \<open>None\<close>; so is closing a closed channel, and a
  receive from an open, empty channel, which blocks. A receive from a closed, empty channel
  yields the zero value.
\<close>

definition chan_send :: "chan \<Rightarrow> rootHashOrError \<Rightarrow> chan option" where
  "chan_send c v = (if closed c \<or> length (buf c) \<ge> 1 then None else Some (c\<lparr>buf := buf c @ [v]\<rparr>))"

definition chan_close :: "chan \<Rightarrow> chan option" where
  "chan_close c = (if closed c then None else Some (c\<lparr>closed := True\<rparr>))"

definition chan_recv :: "chan \<Rightarrow> (rootHashOrError \<times> chan) option" where
  "chan_recv c =
     (case buf c of
        v # vs \<Rightarrow> Some (v, c\<lparr>buf := vs\<rparr>)
      | [] \<Rightarrow> if closed c then Some (\<lparr>root_hash = None, err = None\<rparr>, c) else None)"

definition set_root :: "subtreeWriter \<Rightarrow> chan \<Rightarrow> subtreeWriter" where
  "set_root s c =
     SubtreeWriter (treeID s) (prefix s) (subtreeDepth s) (leafQueue s) (queueCap s) c
       (children s) (treeRevision s) (depths s)"

definition RootHash ::
  "subtreeWriter \<Rightarrow> ((bytes option \<times> error option) \<times> subtreeWriter) option" where
  "RootHash s =
     (case chan_recv (root s) of
        None \<Rightarrow> None
      | Some (r, c) \<Rightarrow> Some ((root_hash r, err r), set_root s c))"

subsection \<open>Finalisation\<close>

text \<open>
  The storage transaction a worker writes through: \<open>GetMerkleNodes\<close> reads the
  transaction's state, \<open>SetMerkleNodes\<close> returns the backend's error, if any, and the
  state it leaves.
\<close>

record 'st MapTreeTX =
  GetMerkleNodes :: "'st \<Rightarrow> int \<Rightarrow> NodeID list \<Rightarrow> nat + Node list"
  SetMerkleNodes :: "'st \<Rightarrow> Node list \<Rightarrow> nat option \<times> 'st"

text \<open>
  What finalisation calls outside this file, taken as parameters: the hasher's
  \<open>BitLen\<close>, the node-id constructors and \<open>BigInt\<close> of the storage package, and
  \<open>HStar2Nodes\<close>. The latter is given the tree id, the prefix, the depth, the leaves
  and the \<open>getNode\<close> callback, and yields the calls it makes to \<open>getNode\<close>, in order,
  as (depth, index), the calls it makes to \<open>setNode\<close>, in order, as (depth, index,
  hash), and its result; \<open>setNode\<close> always returns \<open>nil\<close>, so nothing else of it can
  reach HStar2.
\<close>

record collaborators =
  BitLen :: nat
  NewNodeIDFromPrefixSuffix :: "bytes \<Rightarrow> nat \<Rightarrow> NodeID"
  BigInt :: "NodeID \<Rightarrow> int"
  NewNodeIDFromBigInt :: "nat \<Rightarrow> int \<Rightarrow> nat \<Rightarrow> NodeID"
  HStar2Nodes :: "int \<Rightarrow> bytes \<Rightarrow> nat \<Rightarrow> HStar2LeafHash list
                    \<Rightarrow> (nat \<Rightarrow> int \<Rightarrow> error + bytes option)
                    \<Rightarrow> (nat \<times> int) list \<times> (nat \<times> int \<times> bytes) list \<times> (error + bytes option)"

text \<open>
  Modelled from the spec: HStar2 (not among the sources at hand), as far as a failing
  read goes. A storage error at any point aborts the transaction, so when a call that
  HStar2 makes to \<open>getNode\<close> returns an error, \<open>HStar2Nodes\<close> returns the error of
  the first such call.
\<close>

fun first_error :: "(nat \<Rightarrow> int \<Rightarrow> error + bytes option) \<Rightarrow> (nat \<times> int) list \<Rightarrow> error option" where
  "first_error get [] = None"
| "first_error get (rd # reads) =
     (case get (fst rd) (snd rd) of
        Inl e \<Rightarrow> Some e
      | Inr h \<Rightarrow> first_error get reads)"

definition hands_back_read_errors :: "collaborators \<Rightarrow> bool" where
  "hands_back_read_errors env \<longleftrightarrow>
     (\<forall>tid pfx d leaves get reads calls r e.
        HStar2Nodes env tid pfx d leaves get = (reads, calls, r) \<and> first_error get reads = Some e
        \<longrightarrow> r = Inl e)"

text \<open>
  Invoking a producer. \<open>childRootHash\<close> is what \<open>RootHash\<close> of the child at a prefix
  returns when its root is there; a \<open>nil\<close> hash is the empty byte string.
\<close>

fun invoke :: "(bytes \<Rightarrow> bytes option \<times> error option) \<Rightarrow> producer \<Rightarrow> error + indexAndHash" where
  "invoke childRootHash (LeafProducer idx h) = Inr \<lparr>index = idx, hash = h\<rparr>"
| "invoke childRootHash (ChildRootProducer cp) =
     (case childRootHash cp of
        (h, Some e) \<Rightarrow> Inl e
      | (h, None) \<Rightarrow> Inr \<lparr>index = cp, hash = (case h of None \<Rightarrow> [] | Some x \<Rightarrow> x)\<rparr>)"

text \<open>The loop over the leaf queue in \<open>buildSubtree\<close>, with its two accumulators.\<close>

fun drainLeafQueue ::
  "collaborators \<Rightarrow> (bytes \<Rightarrow> bytes option \<times> error option) \<Rightarrow> int \<Rightarrow> producer list
     \<Rightarrow> HStar2LeafHash list \<Rightarrow> Node list \<Rightarrow> error + (HStar2LeafHash list \<times> Node list)" where
  "drainLeafQueue env crh rv [] leaves nodesToStore = Inr (leaves, nodesToStore)"
| "drainLeafQueue env crh rv (leaf # q) leaves nodesToStore =
     (case invoke crh leaf of
        Inl e \<Rightarrow> Inl e
      | Inr ih \<Rightarrow>
          (let nodeID = NewNodeIDFromPrefixSuffix env (index ih) (BitLen env)
           in drainLeafQueue env crh rv q
                (leaves @ [\<lparr>Index = BigInt env nodeID, LeafHash = hash ih\<rparr>])
                (nodesToStore @ [\<lparr>NodeID = nodeID, Hash = hash ih, NodeRevision = rv\<rparr>])))"

text \<open>The \<open>getNode\<close> closure.\<close>

definition getNode ::
  "collaborators \<Rightarrow> 'st MapTreeTX \<Rightarrow> subtreeWriter \<Rightarrow> 'st \<Rightarrow> nat \<Rightarrow> int \<Rightarrow> error + bytes option" where
  "getNode env t s st depth i =
     (let nodeID = NewNodeIDFromBigInt env depth i (BitLen env) in
      case GetMerkleNodes t st (treeRevision s) [nodeID] of
        Inl c \<Rightarrow> Inl (StorageError c)
      | Inr nodes \<Rightarrow>
          (case nodes of
             [] \<Rightarrow> Inr None
           | n # _ \<Rightarrow>
               if \<not> Equivalent (NodeID n) nodeID then Inl (GotNodeWant (NodeID n) nodeID)
               else if NodeRevision n > treeRevision s
                 then Inl (GotNodeRevision (NodeRevision n) (treeRevision s))
               else Inr (Some (Hash n))))"

text \<open>The \<open>setNode\<close> closure: its error and \<open>nodesToStore\<close> as it leaves it.\<close>

definition setNode ::
  "collaborators \<Rightarrow> subtreeWriter \<Rightarrow> Node list \<Rightarrow> nat \<Rightarrow> int \<Rightarrow> bytes \<Rightarrow> error option \<times> Node list" where
  "setNode env s nodesToStore depth i h =
     (if depth = length (prefix s) * 8 \<and> length (prefix s) > 0 then (None, nodesToStore)
      else (None, nodesToStore @
              [\<lparr>NodeID = NewNodeIDFromBigInt env depth i (BitLen env), Hash = h,
                NodeRevision = treeRevision s\<rparr>]))"

text \<open>The node that \<open>setNode\<close> builds for a call, given as (depth, index, hash).\<close>

definition stored_node :: "collaborators \<Rightarrow> subtreeWriter \<Rightarrow> nat \<times> int \<times> bytes \<Rightarrow> Node" where
  "stored_node env s c =
     (case c of (depth, i, h) \<Rightarrow>
        \<lparr>NodeID = NewNodeIDFromBigInt env depth i (BitLen env), Hash = h,
         NodeRevision = treeRevision s\<rparr>)"

text \<open>\<open>nodesToStore\<close> after the calls HStar2 makes to \<open>setNode\<close>.\<close>

definition setNodes ::
  "collaborators \<Rightarrow> subtreeWriter \<Rightarrow> Node list \<Rightarrow> (nat \<times> int \<times> bytes) list \<Rightarrow> Node list" where
  "setNodes env s nodesToStore calls =
     foldl (\<lambda>ns (depth, i, h). snd (setNode env s ns depth i h)) nodesToStore calls"

text \<open>
  The function \<open>buildSubtree\<close> hands to \<open>runTX\<close>: the root it assigns, or the error it
  returns, and the transaction's state.
\<close>

definition buildSubtree_tx ::
  "collaborators \<Rightarrow> 'st MapTreeTX \<Rightarrow> (bytes \<Rightarrow> bytes option \<times> error option) \<Rightarrow> subtreeWriter
     \<Rightarrow> 'st \<Rightarrow> (error + bytes option) \<times> 'st" where
  "buildSubtree_tx env t crh s st =
     (case drainLeafQueue env crh (treeRevision s) (leafQueue s) [] [] of
        Inl e \<Rightarrow> (Inl e, st)
      | Inr (leaves, nodesToStore) \<Rightarrow>
          (case HStar2Nodes env (treeID s) (prefix s) (subtreeDepth s) leaves (getNode env t s st) of
             (reads, calls, Inl e) \<Rightarrow> (Inl e, st)
           | (reads, calls, Inr r) \<Rightarrow>
               (case SetMerkleNodes t st (setNodes env s nodesToStore calls) of
                  (Some c, st') \<Rightarrow> (Inl (StorageError c), st')
                | (None, st') \<Rightarrow> (Inr r, st'))))"

text \<open>
  Modelled from the spec: \<open>runTX\<close> is the storage layer's read-write transaction, which
  is not part of the sources at hand. It runs the function inside a transaction: commit
  on success, rollback on error.
\<close>

definition runTX :: "'st \<Rightarrow> ('st \<Rightarrow> (error + 'a) \<times> 'st) \<Rightarrow> (error + 'a) \<times> 'st" where
  "runTX st f =
     (case f st of
        (Inl e, st') \<Rightarrow> (Inl e, st)
      | (Inr r, st') \<Rightarrow> (Inr r, st'))"

text \<open>
  \<open>buildSubtree\<close>, run once \<open>CalculateRoot\<close> has closed the leaf queue: the storage and
  the worker as it leaves them, or \<open>None\<close> when it cannot get there. The deferred
  \<open>close\<close> comes last.
\<close>

definition buildSubtree ::
  "collaborators \<Rightarrow> 'st MapTreeTX \<Rightarrow> (bytes \<Rightarrow> bytes option \<times> error option) \<Rightarrow> subtreeWriter
     \<Rightarrow> 'st \<Rightarrow> ('st \<times> subtreeWriter) option" where
  "buildSubtree env t crh s st =
     (case runTX st (buildSubtree_tx env t crh s) of
        (Inl e, st') \<Rightarrow>
          (case chan_send (root s) \<lparr>root_hash = None, err = Some e\<rparr> of
             None \<Rightarrow> None
           | Some c \<Rightarrow> map_option (\<lambda>c'. (st', set_root s c')) (chan_close c))
      | (Inr r, st') \<Rightarrow>
          (case chan_send (root s) \<lparr>root_hash = r, err = None\<rparr> of
             None \<Rightarrow> None
           | Some c \<Rightarrow> map_option (\<lambda>c'. (st', set_root s c')) (chan_close c)))"

text \<open>The value finalisation puts on the root channel: the root, or the error alone.\<close>

definition computed_root ::
  "collaborators \<Rightarrow> 'st MapTreeTX \<Rightarrow> (bytes \<Rightarrow> bytes option \<times> error option) \<Rightarrow> subtreeWriter
     \<Rightarrow> 'st \<Rightarrow> rootHashOrError" where
  "computed_root env t crh s st =
     (case fst (runTX st (buildSubtree_tx env t crh s)) of
        Inl e \<Rightarrow> \<lparr>root_hash = None, err = Some e\<rparr>
      | Inr r \<Rightarrow> \<lparr>root_hash = r, err = None\<rparr>)"

text \<open>
  Finalisation that ends with the storage as it was and the error as the one value on the
  closed root channel.
\<close>

definition aborts_with ::
  "collaborators \<Rightarrow> 'st MapTreeTX \<Rightarrow> (bytes \<Rightarrow> bytes option \<times> error option) \<Rightarrow> subtreeWriter
     \<Rightarrow> 'st \<Rightarrow> error \<Rightarrow> bool" where
  "aborts_with env t crh s st e \<longleftrightarrow>
     buildSubtree env t crh s st =
       Some (st, set_root s \<lparr>buf = [\<lparr>root_hash = None, err = Some e\<rparr>], closed = True\<rparr>)"

text \<open>
  What the producer of a child's root yields: \<open>RootHash\<close> of the child under the
  captured prefix, a receive from that child's root channel. A producer whose child has
  nothing to receive waits, and is not \<open>root_there\<close>.
\<close>

definition childRootHash :: "(bytes \<times> chan) list \<Rightarrow> bytes \<Rightarrow> bytes option \<times> error option" where
  "childRootHash roots cp =
     (case map_of roots cp of
        None \<Rightarrow> (None, None)
      | Some c \<Rightarrow> (case chan_recv c of None \<Rightarrow> (None, None) | Some (r, c') \<Rightarrow> (root_hash r, err r)))"

definition root_there :: "(bytes \<times> chan) list \<Rightarrow> producer \<Rightarrow> bool" where
  "root_there roots p =
     (case p of
        LeafProducer idx h \<Rightarrow> True
      | ChildRootProducer cp \<Rightarrow>
          (case map_of roots cp of None \<Rightarrow> False | Some c \<Rightarrow> chan_recv c \<noteq> None))"

text \<open>
  \<open>CalculateRoot\<close> closes the leaf queue of the worker and, through the children's
  \<open>CalculateRoot\<close>, of every worker below it, which lets the \<open>buildSubtree\<close> task of
  each of them run to its end, each in a transaction of its own: every worker calls
  \<open>runTX\<close> itself. The tasks run concurrently. Here they run one after the other, the
  children in the order of the map and then the worker: the worker's loop waits at the
  producer of a child until that child has sent its root, and only after the loop does
  the worker read from storage and, last, write to it. The result is the storage as the
  tasks leave it and the worker's root channel as its own task leaves it, for the workers
  below it the root channels under their prefixes; it is \<open>None\<close> when a task cannot
  get to its end.
\<close>

fun CalculateRoot ::
  "collaborators \<Rightarrow> 'st MapTreeTX \<Rightarrow> subtreeWriter \<Rightarrow> 'st \<Rightarrow> ('st \<times> chan) option"
and CalculateRoot_children ::
  "collaborators \<Rightarrow> 'st MapTreeTX \<Rightarrow> (bytes \<times> subtreeWriter) list \<Rightarrow> 'st
     \<Rightarrow> ('st \<times> (bytes \<times> chan) list) option" where
  "CalculateRoot env t (SubtreeWriter tid pfx d q qc r cs rv ds) st =
     (case CalculateRoot_children env t cs st of
        None \<Rightarrow> None
      | Some (st1, roots) \<Rightarrow>
          if list_all (root_there roots) q
            then map_option (\<lambda>(st2, s'). (st2, root s'))
                   (buildSubtree env t (childRootHash roots)
                      (SubtreeWriter tid pfx d q qc r cs rv ds) st1)
          else None)"
| "CalculateRoot_children env t [] st = Some (st, [])"
| "CalculateRoot_children env t (kc # cs) st =
     (case CalculateRoot env t (snd kc) st of
        None \<Rightarrow> None
      | Some (st1, c) \<Rightarrow>
          (case CalculateRoot_children env t cs st1 of
             None \<Rightarrow> None
           | Some (st2, roots) \<Rightarrow> Some (st2, (fst kc, c) # roots)))"

text \<open>
  \<open>SparseMerkleTreeWriter.CalculateRoot\<close>: \<open>CalculateRoot\<close> of the tree, then its
  \<open>RootHash\<close>; with the storage as it is then.
\<close>

definition SparseMerkleTreeWriter_CalculateRoot ::
  "collaborators \<Rightarrow> 'st MapTreeTX \<Rightarrow> subtreeWriter \<Rightarrow> 'st
     \<Rightarrow> ((bytes option \<times> error option) \<times> 'st) option" where
  "SparseMerkleTreeWriter_CalculateRoot env t tree st =
     (case CalculateRoot env t tree st of
        None \<Rightarrow> None
      | Some (st', c) \<Rightarrow>
          (case RootHash (set_root tree c) of
             None \<Rightarrow> None
           | Some (r, tree') \<Rightarrow> Some (r, st')))"

text \<open>A number of calls of \<open>RootHash\<close> one after the other, and what they return.\<close>

fun RootHash_calls ::
  "nat \<Rightarrow> subtreeWriter \<Rightarrow> ((bytes option \<times> error option) list \<times> subtreeWriter) option" where
  "RootHash_calls 0 s = Some ([], s)"
| "RootHash_calls (Suc n) s =
     (case RootHash s of
        None \<Rightarrow> None
      | Some (r, s') \<Rightarrow>
          (case RootHash_calls n s' of
             None \<Rightarrow> None
           | Some (rs, s'') \<Rightarrow> Some (r # rs, s'')))"

text \<open>The root channel once its value has been received: closed and empty.\<close>

definition drained :: chan where
  "drained = \<lparr>buf = [], closed = True\<rparr>"

text \<open>
  The two values \<open>SetLeaf\<close> computes from the worker and the index: the absolute depth
  of the worker's leaves and the prefix of the child the index belongs to.
\<close>

definition absSubtreeDepth :: "subtreeWriter \<Rightarrow> nat" where
  "absSubtreeDepth s = length (prefix s) * 8 + subtreeDepth s"

definition childPrefix :: "subtreeWriter \<Rightarrow> bytes \<Rightarrow> bytes" where
  "childPrefix s idx = take (absSubtreeDepth s div 8) idx"

text \<open>
  What a leaf of a batch becomes: the producer \<open>SetLeaf\<close> puts on the queue, and the
  HStar2 leaf and the node to store that the loop over the queue makes of it.
\<close>

definition producer_of :: "HashKeyValue \<Rightarrow> producer" where
  "producer_of l = LeafProducer (HashedKey l) (HashedValue l)"

definition leaf_of :: "collaborators \<Rightarrow> HashKeyValue \<Rightarrow> HStar2LeafHash" where
  "leaf_of env l =
     \<lparr>Index = BigInt env (NewNodeIDFromPrefixSuffix env (HashedKey l) (BitLen env)),
      LeafHash = HashedValue l\<rparr>"

definition leaf_node_of :: "collaborators \<Rightarrow> int \<Rightarrow> HashKeyValue \<Rightarrow> Node" where
  "leaf_node_of env rv l =
     \<lparr>NodeID = NewNodeIDFromPrefixSuffix env (HashedKey l) (BitLen env), Hash = HashedValue l,
      NodeRevision = rv\<rparr>"

section \<open>Tiles and the tile cache\<close>

text \<open>
  The tile cache and \<open>PopulateLogTile\<close> belong to the storage cache package, of which
  only the tests are among the sources at hand; \<open>compact.Range\<close> belongs to the compact
  Merkle range package, which is not among them either. This section models them from the
  spec (sections 3, 4.6, 4.6.1 and 6).
\<close>

subsection \<open>Tiles\<close>

text \<open>
  Modelled from the spec: the hash capability of a log (the hashers package, not among the
  sources at hand), as far as a tile needs it: how two children are hashed, and the root
  of an empty tree.
\<close>

record logHasher =
  HashChildren :: "bytes \<Rightarrow> bytes \<Rightarrow> bytes"
  EmptyRoot :: bytes

text \<open>
  Modelled from the spec: the stored tile (\<open>storagepb.SubtreeProto\<close>, not among the
  sources at hand), with the fields the spec lists. A suffix names a node within its tile
  by level and index: level 0 are the tile's leaves (the suffix has \<open>depth\<close> bits), an
  interior node at level \<open>l\<close> is stored under \<open>(l, index_within_tile)\<close>, and the tile's
  root would be \<open>(depth, 0)\<close>.
\<close>

type_synonym suffix = "nat \<times> nat"

record tile =
  tile_prefix :: bytes
  tile_depth :: nat
  tile_leaves :: "(suffix \<times> bytes) list"
  internalNodes :: "(suffix \<times> bytes) list"
  internalNodeCount :: nat
  rootHash :: bytes

text \<open>
  Modelled from the spec: a compact Merkle range as an append-only log (the
  \<open>compact.Range\<close> of the tests, not among the sources at hand). The range is the list
  of the roots of the perfect subtrees that cover the leaves so far, as (level, hash), the
  latest and smallest first. Appending a leaf puts it on the range at level 0 and merges,
  as long as the two latest subtrees have the same level, the two into their parent; every
  node made on the way, the leaf included, is reported with its level and its index in
  that level. \<open>n\<close> is the number of leaves before the append.
\<close>

type_synonym visit = "(nat \<times> nat) \<times> bytes"

fun collapse ::
  "logHasher \<Rightarrow> nat \<Rightarrow> (nat \<times> bytes) list \<Rightarrow> visit list \<Rightarrow> (nat \<times> bytes) list \<times> visit list" where
  "collapse hs n ((l1, h1) # (l2, h2) # rest) vs =
     (if l1 = l2
        then collapse hs n ((Suc l1, HashChildren hs h2 h1) # rest)
               (vs @ [((Suc l1, n div 2 ^ Suc l1), HashChildren hs h2 h1)])
      else ((l1, h1) # (l2, h2) # rest, vs))"
| "collapse hs n st vs = (st, vs)"

definition append_leaf ::
  "logHasher \<Rightarrow> (nat \<times> bytes) list \<times> nat \<times> visit list \<Rightarrow> bytes
     \<Rightarrow> (nat \<times> bytes) list \<times> nat \<times> visit list" where
  "append_leaf hs r leaf =
     (case r of (st, n, vs) \<Rightarrow>
        (case collapse hs n ((0, leaf) # st) (vs @ [((0, n), leaf)]) of
           (st', vs') \<Rightarrow> (st', Suc n, vs')))"

definition range_root :: "logHasher \<Rightarrow> (nat \<times> bytes) list \<Rightarrow> bytes" where
  "range_root hs st =
     (case st of
        [] \<Rightarrow> EmptyRoot hs
      | (l, h) # rest \<Rightarrow> foldl (\<lambda>acc e. HashChildren hs (snd e) acc) h rest)"

text \<open>
  Modelled from the spec: the same compact range without the reports, which is the
  independent computation the tile's root is compared with.
\<close>

fun collapse0 :: "logHasher \<Rightarrow> (nat \<times> bytes) list \<Rightarrow> (nat \<times> bytes) list" where
  "collapse0 hs ((l1, h1) # (l2, h2) # rest) =
     (if l1 = l2 then collapse0 hs ((Suc l1, HashChildren hs h2 h1) # rest)
      else (l1, h1) # (l2, h2) # rest)"
| "collapse0 hs st = st"

definition compact_root :: "logHasher \<Rightarrow> bytes list \<Rightarrow> bytes" where
  "compact_root hs ls = range_root hs (foldl (\<lambda>st leaf. collapse0 hs ((0, leaf) # st)) [] ls)"

text \<open>
  The Merkle tree hash of \<open>2 ^ d\<close> leaves, by halving: the hash of the children's
  hashes, a single leaf being its own hash.
\<close>

fun mth :: "logHasher \<Rightarrow> nat \<Rightarrow> bytes list \<Rightarrow> bytes" where
  "mth hs 0 ls = (case ls of [] \<Rightarrow> EmptyRoot hs | x # _ \<Rightarrow> x)"
| "mth hs (Suc d) ls =
     HashChildren hs (mth hs d (take (2 ^ d) ls)) (mth hs d (drop (2 ^ d) ls))"

text \<open>
  Modelled from the spec: the leaves of a tile in index order; a tile is completely filled
  when it has \<open>2 ^ depth\<close> leaves. In a well-formed tile the leaves are a mapping from
  the leaf suffixes below \<open>2 ^ depth\<close>, one entry a key.
\<close>

definition leaf_hashes :: "tile \<Rightarrow> bytes list" where
  "leaf_hashes t =
     List.map_filter (\<lambda>i. map_of (tile_leaves t) (0, i)) [0..<2 ^ tile_depth t]"

definition filled :: "tile \<Rightarrow> bool" where
  "filled t \<longleftrightarrow> length (tile_leaves t) = 2 ^ tile_depth t"

definition wf_tile :: "tile \<Rightarrow> bool" where
  "wf_tile t \<longleftrightarrow>
     distinct (map fst (tile_leaves t))
     \<and> (\<forall>k \<in> fst ` set (tile_leaves t). fst k = 0 \<and> snd k < 2 ^ tile_depth t)"

text \<open>
  Modelled from the spec: \<open>PopulateLogTile\<close> (storage cache package, not among the
  sources at hand). It treats the leaves of a filled tile as an append-only log of a
  compact Merkle range and records every interior hash produced during the append, each
  node of a level strictly between 0 and \<open>depth\<close> under its suffix; the tile's root is
  recorded as \<open>rootHash\<close> and not among the interior nodes. A partial tile is not
  rehydrated: only its root is computed.
\<close>

definition store_interior :: "nat \<Rightarrow> (suffix \<times> bytes) list \<Rightarrow> visit \<Rightarrow> (suffix \<times> bytes) list" where
  "store_interior d m v =
     (case v of ((l, i), h) \<Rightarrow>
        if 0 < l \<and> l < d then AList.update (l, i) h m else m)"

definition PopulateLogTile :: "logHasher \<Rightarrow> tile \<Rightarrow> tile" where
  "PopulateLogTile hs t =
     (case foldl (append_leaf hs) ([], 0, []) (leaf_hashes t) of
        (st, n, vs) \<Rightarrow>
          if filled t
            then t\<lparr>internalNodes := foldl (store_interior (tile_depth t)) [] vs,
                   rootHash := range_root hs st\<rparr>
          else t\<lparr>rootHash := range_root hs st\<rparr>)"


text \<open>
  The nodes of a perfect subtree of depth \<open>d\<close> whose first leaf has index \<open>n0\<close>, in
  the order in which appending its leaves reports them; and the nodes that are interior to
  a tile of depth \<open>D\<close>.
\<close>

fun perfect_visits :: "logHasher \<Rightarrow> nat \<Rightarrow> nat \<Rightarrow> bytes list \<Rightarrow> visit list" where
  "perfect_visits hs 0 n0 ls = [((0, n0), mth hs 0 ls)]"
| "perfect_visits hs (Suc d) n0 ls =
     perfect_visits hs d n0 (take (2 ^ d) ls)
     @ perfect_visits hs d (n0 + 2 ^ d) (drop (2 ^ d) ls)
     @ [((Suc d, (n0 + 2 ^ Suc d - 1) div 2 ^ Suc d), mth hs (Suc d) ls)]"

definition interior :: "nat \<Rightarrow> visit \<Rightarrow> bool" where
  "interior D v \<longleftrightarrow> 0 < fst (fst v) \<and> fst (fst v) < D"

subsection \<open>The cache\<close>

text \<open>
  Modelled from the spec: the stratum layout of the cache (not among the sources at
  hand), as far as the cache uses it: how a node id splits into the prefix of its tile and
  its suffix within the tile, the height of the stratum at a tile prefix, and the depths
  of the log strata.
\<close>

record layout =
  split :: "NodeID \<Rightarrow> bytes \<times> suffix"
  stratumHeight :: "bytes \<Rightarrow> nat"
  logStrata :: "nat list"

text \<open>
  Modelled from the spec: the state of the tile cache (not among the sources at hand),
  the map from tile prefix to the loaded tile and its dirty flag.
\<close>

record subtreeCache =
  tiles :: "(bytes \<times> tile \<times> bool) list"

text \<open>
  Modelled from the spec: loading a tile. A tile that storage does not have is an empty
  tile with that prefix and the depth of its stratum. \<open>fetch\<close> returns the stored tile,
  none, or an error.
\<close>

definition empty_tile :: "layout \<Rightarrow> bytes \<Rightarrow> tile" where
  "empty_tile lay tp =
     \<lparr>tile_prefix = tp, tile_depth = stratumHeight lay tp, tile_leaves = [], internalNodes = [],
      internalNodeCount = 0, rootHash = []\<rparr>"

definition fetch_tile :: "layout \<Rightarrow> (bytes \<Rightarrow> error + tile option) \<Rightarrow> bytes \<Rightarrow> error + tile" where
  "fetch_tile lay fetch tp =
     (case fetch tp of
        Inl e \<Rightarrow> Inl e
      | Inr None \<Rightarrow> Inr (empty_tile lay tp)
      | Inr (Some t) \<Rightarrow> Inr t)"

text \<open>
  Modelled from the spec: the hash at a suffix is taken from the leaves when the suffix
  has \<open>depth\<close> bits, that is at level 0, and from the interior nodes otherwise.
\<close>

definition is_leaf_suffix :: "suffix \<Rightarrow> bool" where
  "is_leaf_suffix sfx \<longleftrightarrow> fst sfx = 0"

definition node_hash :: "tile \<Rightarrow> suffix \<Rightarrow> bytes option" where
  "node_hash t sfx =
     (if is_leaf_suffix sfx then map_of (tile_leaves t) sfx else map_of (internalNodes t) sfx)"

text \<open>
  Modelled from the spec: \<open>getNodeHash\<close> (not among the sources at hand). The node id
  is split; a tile that is not in the cache is fetched, and rehydrated when it comes with
  a full leaf set and no interior nodes; the hash at the suffix is returned.
\<close>

definition loaded_form :: "logHasher \<Rightarrow> tile \<Rightarrow> tile" where
  "loaded_form hs t = (if filled t \<and> internalNodes t = [] then PopulateLogTile hs t else t)"

definition getNodeHash ::
  "layout \<Rightarrow> logHasher \<Rightarrow> subtreeCache \<Rightarrow> NodeID \<Rightarrow> (bytes \<Rightarrow> error + tile option)
     \<Rightarrow> (error + bytes option) \<times> subtreeCache" where
  "getNodeHash lay hs c nodeID fetch =
     (case split lay nodeID of (tp, sfx) \<Rightarrow>
        (case map_of (tiles c) tp of
           Some (t, d) \<Rightarrow> (Inr (node_hash t sfx), c)
         | None \<Rightarrow>
             (case fetch_tile lay fetch tp of
                Inl e \<Rightarrow> (Inl e, c)
              | Inr t \<Rightarrow>
                  (Inr (node_hash (loaded_form hs t) sfx),
                   c\<lparr>tiles := tiles c @ [(tp, loaded_form hs t, False)]\<rparr>))))"

text \<open>
  Modelled from the spec: \<open>setNodeHash\<close> (not among the sources at hand). The
  containing tile is located, or fetched on a miss; the hash is inserted into the leaves
  or the interior nodes under the suffix and the tile is marked dirty, unless the entry
  that is there equals the hash.
\<close>

definition put_hash :: "tile \<Rightarrow> suffix \<Rightarrow> bytes \<Rightarrow> tile" where
  "put_hash t sfx h =
     (if is_leaf_suffix sfx then t\<lparr>tile_leaves := AList.update sfx h (tile_leaves t)\<rparr>
      else t\<lparr>internalNodes := AList.update sfx h (internalNodes t)\<rparr>)"

definition setNodeHash ::
  "layout \<Rightarrow> subtreeCache \<Rightarrow> NodeID \<Rightarrow> bytes \<Rightarrow> (bytes \<Rightarrow> error + tile option)
     \<Rightarrow> error option \<times> subtreeCache" where
  "setNodeHash lay c nodeID h fetch =
     (case split lay nodeID of (tp, sfx) \<Rightarrow>
        (case (case map_of (tiles c) tp of
                 Some (t, d) \<Rightarrow> Inr (t, c)
               | None \<Rightarrow>
                   (case fetch_tile lay fetch tp of
                      Inl e \<Rightarrow> Inl e
                    | Inr t \<Rightarrow> Inr (t, c\<lparr>tiles := tiles c @ [(tp, t, False)]\<rparr>))) of
           Inl e \<Rightarrow> (Some e, c)
         | Inr (t, c1) \<Rightarrow>
             if node_hash t sfx = Some h then (None, c1)
             else (None, c1\<lparr>tiles := AList.update tp (put_hash t sfx h, True) (tiles c1)\<rparr>)))"

text \<open>
  Modelled from the spec: \<open>flush\<close> (not among the sources at hand). A dirty tile is
  written with its interior nodes populated when its depth is one of the log strata and its
  leaves fill it, and with its leaves only otherwise. All dirty tiles go out in a single
  \<open>writeTiles\<close> batch, which is not called at all when no tile is dirty; then the
  dirty flags are cleared.
\<close>

definition store_form :: "layout \<Rightarrow> logHasher \<Rightarrow> tile \<Rightarrow> tile" where
  "store_form lay hs t =
     (if tile_depth t \<in> set (logStrata lay) \<and> filled t then PopulateLogTile hs t
      else t\<lparr>internalNodes := []\<rparr>)"

definition dirty_tiles :: "subtreeCache \<Rightarrow> tile list" where
  "dirty_tiles c = map (\<lambda>e. fst (snd e)) (filter (\<lambda>e. snd (snd e)) (tiles c))"

definition flush ::
  "layout \<Rightarrow> logHasher \<Rightarrow> subtreeCache \<Rightarrow> (tile list \<Rightarrow> 'st \<Rightarrow> error option \<times> 'st) \<Rightarrow> 'st
     \<Rightarrow> error option \<times> subtreeCache \<times> 'st" where
  "flush lay hs c writeTiles st =
     (if dirty_tiles c = [] then (None, c, st)
      else
        (case writeTiles (map (store_form lay hs) (dirty_tiles c)) st of
           (Some e, st') \<Rightarrow> (Some e, c, st')
         | (None, st') \<Rightarrow>
             (None, c\<lparr>tiles := map (\<lambda>e. (fst e, fst (snd e), False)) (tiles c)\<rparr>, st')))"

text \<open>
  Modelled from the spec: the tile storage behind the cache (the mock storage of the
  tests), with \<open>GetSubtree\<close> and \<open>SetSubtrees\<close>: the stored tiles by prefix, and the
  batches written so far. In a sound storage every tile is stored under its own prefix.
\<close>

record tileStore =
  stored :: "(bytes \<times> tile) list"
  write_calls :: "tile list list"

definition GetSubtree :: "tileStore \<Rightarrow> bytes \<Rightarrow> error + tile option" where
  "GetSubtree st tp = Inr (map_of (stored st) tp)"

definition SetSubtrees :: "tile list \<Rightarrow> tileStore \<Rightarrow> error option \<times> tileStore" where
  "SetSubtrees ts st =
     (None, \<lparr>stored = foldl (\<lambda>m t. AList.update (tile_prefix t) t m) (stored st) ts,
             write_calls = write_calls st @ [ts]\<rparr>)"

definition store_ok :: "tileStore \<Rightarrow> bool" where
  "store_ok st \<longleftrightarrow> list_all (\<lambda>e. tile_prefix (snd e) = fst e) (stored st)"

text \<open>
  A round of writing a hash to a node and flushing, on one cache; and the round of
  \<open>TestIdempotentWrites\<close>: a new cache reads the node, which loads its tile, writes the
  hash with \<open>noFetch\<close>, a fetch that fails when called, and flushes.
\<close>

definition write_round ::
  "layout \<Rightarrow> logHasher \<Rightarrow> NodeID \<Rightarrow> bytes \<Rightarrow> subtreeCache \<times> tileStore \<Rightarrow> subtreeCache \<times> tileStore" where
  "write_round lay hs nodeID h cs =
     (case cs of (c, st) \<Rightarrow>
        (case setNodeHash lay c nodeID h (GetSubtree st) of
           (e, c1) \<Rightarrow> (case flush lay hs c1 SetSubtrees st of (e', c2, st') \<Rightarrow> (c2, st'))))"

definition noFetch :: "bytes \<Rightarrow> error + tile option" where
  "noFetch tp = Inl (StorageError 0)"

definition fresh_round ::
  "layout \<Rightarrow> logHasher \<Rightarrow> NodeID \<Rightarrow> bytes \<Rightarrow> tileStore \<Rightarrow> tileStore" where
  "fresh_round lay hs nodeID h st =
     (case getNodeHash lay hs \<lparr>tiles = []\<rparr> nodeID (GetSubtree st) of
        (r, c0) \<Rightarrow>
          (case setNodeHash lay c0 nodeID h noFetch of
             (e, c1) \<Rightarrow> (case flush lay hs c1 SetSubtrees st of (e', c2, st') \<Rightarrow> st')))"

text \<open>
  After a round on one cache the tile is loaded with the hash in place and nothing is
  dirty; after a round with a new cache the stored tile of the node has the hash as the
  node's leaf.
\<close>

definition settled :: "layout \<Rightarrow> NodeID \<Rightarrow> bytes \<Rightarrow> subtreeCache \<Rightarrow> bool" where
  "settled lay nodeID h c \<longleftrightarrow>
     dirty_tiles c = []
     \<and> (\<exists>e. map_of (tiles c) (fst (split lay nodeID)) = Some e
            \<and> node_hash (fst e) (snd (split lay nodeID)) = Some h)"

definition stored_leaf :: "layout \<Rightarrow> NodeID \<Rightarrow> bytes \<Rightarrow> tileStore \<Rightarrow> bool" where
  "stored_leaf lay nodeID h st \<longleftrightarrow>
     (case map_of (stored st) (fst (split lay nodeID)) of
        None \<Rightarrow> False
      | Some t \<Rightarrow> map_of (tile_leaves t) (snd (split lay nodeID)) = Some h)"


section \<open>Concrete inputs\<close>

text \<open>
  A small instance of the collaborators, for evaluating the definitions: hashes of 16
  bits, node ids whose path is the index bytes, the big-endian value of a path as its
  integer, and an HStar2 that reads nothing and reports its own root and one node below
  it.
\<close>

definition env0 :: collaborators where
  "env0 = \<lparr>BitLen = 16,
           NewNodeIDFromPrefixSuffix = (\<lambda>p n. \<lparr>Path = p, PrefixLenBits = 8 * length p\<rparr>),
           BigInt = (\<lambda>n. foldl (\<lambda>a b. 256 * a + uint b) 0 (Path n)),
           NewNodeIDFromBigInt =
             (\<lambda>d i n. \<lparr>Path = [word_of_int (i div 256), word_of_int i], PrefixLenBits = d\<rparr>),
           HStar2Nodes =
             (\<lambda>tid pfx d leaves get.
                ([], [(length pfx * 8 + 1, 0, [7]), (length pfx * 8, 0, [8])], Inr (Some [8])))\<rparr>"

text \<open>A bottom-stratum worker under the prefix \<open>01\<close>, writing revision 5.\<close>

definition w1 :: subtreeWriter where
  "w1 = SubtreeWriter 1 [1] 8 [] 1024 make_root_chan [] 5 [8]"

text \<open>
  Readers over a storage that returns, for any request, no node, one good root node, a
  root node of revision 9, or two nodes.
\<close>

definition root_node :: "int \<Rightarrow> Node" where
  "root_node r = \<lparr>NodeID = NewEmptyNodeID 256, Hash = [171, 205], NodeRevision = r\<rparr>"

definition reader_of :: "Node list \<Rightarrow> SparseMerkleTreeReader" where
  "reader_of ns = \<lparr>tx = (\<lambda>rv ids. Inr ns), readerRevision = 3\<rparr>"

text \<open>
  The root worker of the plan \<open>[8, 8]\<close>, the same after two leaves under the prefixes
  \<open>01\<close> and \<open>02\<close>, and the bottom worker under \<open>01\<close> with one leaf on its queue.
\<close>

definition w0 :: subtreeWriter where
  "w0 = SubtreeWriter 1 [] 8 [] 256 make_root_chan [] 5 [8, 8]"

definition w2 :: subtreeWriter where
  "w2 = snd (SetLeaves w0 [\<lparr>HashedKey = [1, 4], HashedValue = [6]\<rparr>,
                            \<lparr>HashedKey = [2, 4], HashedValue = [7]\<rparr>])"

definition w3 :: subtreeWriter where
  "w3 = snd (SetLeaf w1 [1, 4] [6])"

text \<open>
  Child roots: the child under \<open>02\<close> has failed, the others have a root. A storage
  that is the list of the nodes written: one transaction that writes them all, one that
  writes the first node and then fails. An HStar2 that fails after a call to
  \<open>setNode\<close>.
\<close>

definition crh0 :: "bytes \<Rightarrow> bytes option \<times> error option" where
  "crh0 cp = (if cp = [2] then (None, Some (StorageError 7)) else (Some [9], None))"

definition tx_ok :: "Node list MapTreeTX" where
  "tx_ok = \<lparr>GetMerkleNodes = (\<lambda>st rv ids. Inr []),
            SetMerkleNodes = (\<lambda>st ns. (None, st @ ns))\<rparr>"

definition tx_failing :: "Node list MapTreeTX" where
  "tx_failing = \<lparr>GetMerkleNodes = (\<lambda>st rv ids. Inr []),
                 SetMerkleNodes = (\<lambda>st ns. (Some 13, st @ take 1 ns))\<rparr>"

definition env_failing :: collaborators where
  "env_failing = env0\<lparr>HStar2Nodes :=
                   (\<lambda>tid pfx d leaves get.
                      ([], [(length pfx * 8 + 1, 0, [7])], Inl (HStar2Error 3)))\<rparr>"

text \<open>
  A storage that refuses a write with a node at the path \<open>0204\<close> and leaves nothing of
  it, a storage whose reads fail, and an HStar2 that reads one node and goes on only when
  the read succeeds.
\<close>

definition tx_rejecting :: "Node list MapTreeTX" where
  "tx_rejecting = \<lparr>GetMerkleNodes = (\<lambda>st rv ids. Inr []),
                   SetMerkleNodes =
                     (\<lambda>st ns. if list_ex (\<lambda>n. Path (NodeID n) = [2, 4]) ns then (Some 13, st)
                               else (None, st @ ns))\<rparr>"

definition tx_unreadable :: "Node list MapTreeTX" where
  "tx_unreadable = \<lparr>GetMerkleNodes = (\<lambda>st rv ids. Inl 21),
                    SetMerkleNodes = (\<lambda>st ns. (None, st @ ns))\<rparr>"

definition env_reading :: collaborators where
  "env_reading = env0\<lparr>HStar2Nodes :=
                   (\<lambda>tid pfx d leaves get.
                      case get (length pfx * 8 + 1) 1 of
                        Inl e \<Rightarrow> ([(length pfx * 8 + 1, 1)], [], Inl e)
                      | Inr h \<Rightarrow>
                          ([(length pfx * 8 + 1, 1)], [(length pfx * 8 + 1, 0, [7])],
                           Inr (Some [8])))\<rparr>"

text \<open>
  What the workers under \<open>01\<close> and \<open>02\<close> leave on that refusing storage: the first
  its two nodes, the second nothing; and their root channels.
\<close>

definition nodes_of_01 :: "Node list" where
  "nodes_of_01 = [\<lparr>NodeID = \<lparr>Path = [1, 4], PrefixLenBits = 16\<rparr>, Hash = [6], NodeRevision = 5\<rparr>,
                  \<lparr>NodeID = \<lparr>Path = [0, 0], PrefixLenBits = 9\<rparr>, Hash = [7], NodeRevision = 5\<rparr>]"

definition roots_done :: "(bytes \<times> chan) list" where
  "roots_done =
     [([1], \<lparr>buf = [\<lparr>root_hash = Some [8], err = None\<rparr>], closed = True\<rparr>),
      ([2], \<lparr>buf = [\<lparr>root_hash = None, err = Some (StorageError 13)\<rparr>], closed = True\<rparr>)]"

text \<open>A batch that sets the leaf \<open>0104\<close> twice.\<close>

definition batch_dup :: "HashKeyValue list" where
  "batch_dup = [\<lparr>HashedKey = [1, 4], HashedValue = [6]\<rparr>, \<lparr>HashedKey = [1, 4], HashedValue = [7]\<rparr>]"

text \<open>
  What storage returns for the key \<open>05\<close> of 8 bits: the siblings of the leaf and of the
  root's child; and the same with the leaf itself in place of its sibling.
\<close>

definition proof_nodes :: "Node list" where
  "proof_nodes = [\<lparr>NodeID = \<lparr>Path = [4], PrefixLenBits = 8\<rparr>, Hash = [9], NodeRevision = 1\<rparr>,
                  \<lparr>NodeID = \<lparr>Path = [128], PrefixLenBits = 1\<rparr>, Hash = [10], NodeRevision = 1\<rparr>]"

definition stray_nodes :: "Node list" where
  "stray_nodes = [\<lparr>NodeID = \<lparr>Path = [5], PrefixLenBits = 8\<rparr>, Hash = [9], NodeRevision = 1\<rparr>,
                  \<lparr>NodeID = \<lparr>Path = [128], PrefixLenBits = 1\<rparr>, Hash = [10], NodeRevision = 1\<rparr>]"

text \<open>
  A hasher that writes down what it hashes, a filled tile of depth 2 and the same with
  its last leaf missing.
\<close>

definition hs0 :: logHasher where
  "hs0 = \<lparr>HashChildren = (\<lambda>l r. [100] @ l @ r), EmptyRoot = []\<rparr>"

definition t2 :: tile where
  "t2 = \<lparr>tile_prefix = [], tile_depth = 2,
          tile_leaves = [((0, 0), [0]), ((0, 1), [1]), ((0, 2), [2]), ((0, 3), [3])],
          internalNodes = [], internalNodeCount = 2, rootHash = []\<rparr>"

definition t3 :: tile where
  "t3 = t2\<lparr>tile_leaves := [((0, 0), [0]), ((0, 1), [1]), ((0, 2), [2])], internalNodeCount := 0\<rparr>"

text \<open>
  The layout of strata of 8 bits: the tile prefix of a node is the bytes above its last
  stratum, its level the bits missing to the stratum's leaves, its index the bits it has
  within the stratum. Two nodes under the tile \<open>010203\<close>: its first leaf and the right
  child of its root. An empty cache and an empty storage.
\<close>

definition lay8 :: layout where
  "lay8 = \<lparr>split = (\<lambda>n. (take ((PrefixLenBits n - 1) div 8) (Path n),
                         (8 - (PrefixLenBits n - ((PrefixLenBits n - 1) div 8) * 8),
                          drop_bit (8 - (PrefixLenBits n - ((PrefixLenBits n - 1) div 8) * 8))
                            (unat (Path n ! ((PrefixLenBits n - 1) div 8)))))),
           stratumHeight = (\<lambda>tp. 8), logStrata = [8]\<rparr>"

definition leaf_id :: NodeID where
  "leaf_id = \<lparr>Path = [1, 2, 3, 0], PrefixLenBits = 32\<rparr>"

definition inner_id :: NodeID where
  "inner_id = \<lparr>Path = [1, 2, 3, 128], PrefixLenBits = 25\<rparr>"

definition cache0 :: subtreeCache where
  "cache0 = \<lparr>tiles = []\<rparr>"

definition store0 :: tileStore where
  "store0 = \<lparr>stored = [], write_calls = []\<rparr>"

section \<open>Properties\<close>

subsection \<open>Helper lemmas\<close>

lemma sint_shift:
  assumes "d < 63"
  shows "sint (2 ^ d :: 64 word) = 2 ^ d"
proof -
  have u: "uint (2 ^ d :: 64 word) = 2 ^ d"
    using assms by (intro uint_2p) (simp add: word_gt_0)
  have lt: "(2::int) ^ d < 2 ^ 63"
    using power_strict_increasing [of d 63 "2::int"] assms by simp
  have "signed_take_bit 63 ((2::int) ^ d) = 2 ^ d"
    using lt by (intro signed_take_bit_int_eq_self) (auto intro: order_trans [of _ 0])
  then show ?thesis
    by (simp add: sint_uint u)
qed

lemma makechan_1024: "makechan 8 1024 = Inr 1024"
  by (simp add: makechan_def maxAlloc_def hchanSize_def)

lemma setNodes_filter:
  "prefix s \<noteq> [] \<Longrightarrow>
   setNodes env s ns calls =
     ns @ map (stored_node env s) (filter (\<lambda>c. fst c \<noteq> length (prefix s) * 8) calls)"
proof (induction calls arbitrary: ns)
  case Nil
  then show ?case by (simp add: setNodes_def)
next
  case (Cons c calls)
  obtain d i h where c: "c = (d, i, h)" by (cases c)
  have step: "setNodes env s ns (c # calls) = setNodes env s (snd (setNode env s ns d i h)) calls"
    by (simp add: setNodes_def c)
  show ?case
  proof (cases "d = length (prefix s) * 8")
    case True
    with Cons.prems have "snd (setNode env s ns d i h) = ns"
      by (simp add: setNode_def)
    with Cons.IH [OF Cons.prems, of ns] True show ?thesis
      by (simp add: step) (simp add: c)
  next
    case False
    then have "snd (setNode env s ns d i h) = ns @ [stored_node env s c]"
      by (simp add: setNode_def stored_node_def c)
    with Cons.IH [OF Cons.prems, of "ns @ [stored_node env s c]"] False show ?thesis
      by (simp add: step) (simp add: c)
  qed
qed

lemma buildSubtree_fresh:
  assumes "root s = make_root_chan"
  shows "buildSubtree env t crh s st =
           Some (snd (runTX st (buildSubtree_tx env t crh s)),
                 set_root s \<lparr>buf = [computed_root env t crh s st], closed = True\<rparr>)"
  using assms
  by (cases "runTX st (buildSubtree_tx env t crh s)")
     (auto simp: buildSubtree_def computed_root_def chan_send_def chan_close_def
        make_root_chan_def split: sum.splits)

lemma drainLeafQueue_first_error:
  "(\<forall>p' \<in> set q1. \<exists>ih. invoke crh p' = Inr ih) \<Longrightarrow> invoke crh p = Inl e \<Longrightarrow>
   drainLeafQueue env crh rv (q1 @ p # q2) ls ns = Inl e"
  by (induction q1 arbitrary: ls ns) (auto simp: Let_def)

lemma tx_error_aborts:
  assumes "root s = make_root_chan" and "fst (buildSubtree_tx env t crh s st) = Inl e"
  shows "aborts_with env t crh s st e"
proof -
  obtain st' where "buildSubtree_tx env t crh s st = (Inl e, st')"
    using assms(2) by (cases "buildSubtree_tx env t crh s st") auto
  then have "runTX st (buildSubtree_tx env t crh s) = (Inl e, st)"
    by (simp add: runTX_def)
  then show ?thesis
    using buildSubtree_fresh [OF assms(1), of env t crh st]
    by (simp add: aborts_with_def computed_root_def)
qed

lemma first_error_append:
  "(\<forall>rd \<in> set r1. \<exists>h. get (fst rd) (snd rd) = Inr h) \<Longrightarrow> get d i = Inl e \<Longrightarrow>
   first_error get (r1 @ (d, i) # r2) = Some e"
  by (induction r1) auto

lemma root_set_root [simp]: "root (set_root s c) = c"
  by (simp add: set_root_def)

lemma set_root_set_root [simp]: "set_root (set_root s c) c' = set_root s c'"
  by (simp add: set_root_def)

lemma RootHash_drained:
  "root s = drained \<Longrightarrow> RootHash s = Some ((None, None), s)"
  by (cases s) (simp add: RootHash_def chan_recv_def drained_def set_root_def)

lemma RootHash_calls_drained:
  "root s = drained \<Longrightarrow> RootHash_calls n s = Some (replicate n (None, None), s)"
  by (induction n) (simp_all add: RootHash_drained)

lemma w2_value:
  "w2 = SubtreeWriter 1 [] 8 [ChildRootProducer [1], ChildRootProducer [2]] 256 make_root_chan
          [([1], SubtreeWriter 1 [1] 8 [LeafProducer [1, 4] [6]] 1024 make_root_chan [] 5 [8]),
           ([2], SubtreeWriter 1 [2] 8 [LeafProducer [2, 4] [7]] 1024 make_root_chan [] 5 [8])]
          5 [8, 8]"
  by code_simp

lemma w3_value:
  "w3 = SubtreeWriter 1 [1] 8 [LeafProducer [1, 4] [6]] 1024 make_root_chan [] 5 [8]"
  by code_simp

lemma SetLeaf_shallow:
  "length idx * 8 < absSubtreeDepth s \<Longrightarrow>
   SetLeaf s idx h = (Some (DepthWantAtLeast (length idx * 8) (absSubtreeDepth s)), s)"
  by (simp add: SetLeaf.simps absSubtreeDepth_def)

lemma SetLeaf_equal:
  "length idx * 8 = absSubtreeDepth s \<Longrightarrow>
   SetLeaf s idx h = (None, enqueue s (LeafProducer idx h))"
  by (simp add: SetLeaf.simps absSubtreeDepth_def)

lemma SetLeaf_deep_fail:
  "length idx * 8 > absSubtreeDepth s \<Longrightarrow>
   getOrCreateChildSubtree s (childPrefix s idx) = Inl e \<Longrightarrow>
   SetLeaf s idx h = (Some e, s)"
  by (subst SetLeaf.simps) (simp add: absSubtreeDepth_def childPrefix_def)

lemma SetLeaf_deep_delegate:
  "length idx * 8 > absSubtreeDepth s \<Longrightarrow>
   getOrCreateChildSubtree s (childPrefix s idx) = Inr (c, s1) \<Longrightarrow>
   SetLeaf s idx h =
     (fst (SetLeaf c idx h), set_child s1 (childPrefix s idx) (snd (SetLeaf c idx h)))"
  by (subst SetLeaf.simps) (simp add: absSubtreeDepth_def childPrefix_def split: prod.splits)

lemma getOrCreate_existing:
  "map_of (children s) k = Some c \<Longrightarrow> getOrCreateChildSubtree s k = Inr (c, s)"
  by (simp add: getOrCreateChildSubtree_def)

lemma getOrCreate_new:
  "map_of (children s) k = None \<Longrightarrow> getSubtree s k = Inr c \<Longrightarrow>
   \<exists>s1. getOrCreateChildSubtree s k = Inr (c, s1)
      \<and> children s1 = children s @ [(k, c)]
      \<and> leafQueue s1 = leafQueue s @ [ChildRootProducer k]
      \<and> map_of (children s1) k = Some c"
  by (simp add: getOrCreateChildSubtree_def map_add_def)

lemma getOrCreate_fail:
  "map_of (children s) k = None \<Longrightarrow> getSubtree s k = Inl e \<Longrightarrow>
   getOrCreateChildSubtree s k = Inl e"
  by (simp add: getOrCreateChildSubtree_def)

lemma getSubtree_new:
  "getSubtree s k = Inr c \<Longrightarrow>
   prefix c = prefix s @ k \<and> depths c = tl (depths s) \<and> subtreeDepth c = hd (tl (depths s))
   \<and> leafQueue c = [] \<and> children c = [] \<and> tl (depths s) \<noteq> []"
  by (auto simp: getSubtree_def newLocalSubtreeWriter_def split: list.splits sum.splits if_splits)

lemma getSubtree_bottom:
  "tl (depths s) = [] \<Longrightarrow> getSubtree s k = Inl PanicIndexOutOfRange"
  by (simp add: getSubtree_def newLocalSubtreeWriter_def)

lemma update_last:
  "k \<notin> fst ` set al \<Longrightarrow> AList.update k v (al @ [(k, c)]) = al @ [(k, v)]"
  by (induction al) auto

lemma set_child_sel [simp]:
  "children (set_child s k c) = AList.update k c (children s)"
  "leafQueue (set_child s k c) = leafQueue s"
  by (simp_all add: set_child_def)

lemma enqueue_sel [simp]:
  "prefix (enqueue s p) = prefix s" "subtreeDepth (enqueue s p) = subtreeDepth s"
  "leafQueue (enqueue s p) = leafQueue s @ [p]" "children (enqueue s p) = children s"
  by (simp_all add: enqueue_def)

lemma SetLeaves_same_depth:
  "\<forall>l \<in> set ls. length (HashedKey l) * 8 = absSubtreeDepth s \<Longrightarrow>
   SetLeaves s ls = (None, foldl enqueue s (map producer_of ls))"
proof (induction ls arbitrary: s)
  case Nil
  then show ?case by simp
next
  case (Cons l ls)
  have "SetLeaf s (HashedKey l) (HashedValue l) = (None, enqueue s (producer_of l))"
    using Cons.prems by (simp add: SetLeaf_equal producer_of_def)
  moreover have "SetLeaves (enqueue s (producer_of l)) ls =
      (None, foldl enqueue (enqueue s (producer_of l)) (map producer_of ls))"
    using Cons.prems by (intro Cons.IH) (simp add: absSubtreeDepth_def)
  ultimately show ?case by simp
qed

lemma leafQueue_foldl_enqueue: "leafQueue (foldl enqueue s ps) = leafQueue s @ ps"
  by (induction ps arbitrary: s) simp_all

lemma drainLeafQueue_leaves:
  "drainLeafQueue env crh rv (map producer_of ls) leaves nodes =
     Inr (leaves @ map (leaf_of env) ls, nodes @ map (leaf_node_of env rv) ls)"
  by (induction ls arbitrary: leaves nodes)
     (simp_all add: producer_of_def leaf_of_def leaf_node_of_def Let_def)

lemma length_byte_bits [simp]: "length (byte_bits b) = 8"
  by (simp add: byte_bits_def)

lemma length_path_bits [simp]: "length (path_bits p) = 8 * length p"
  by (induction p) (simp_all add: path_bits_def)

lemma length_String: "length (String n) = min (PrefixLenBits n) (8 * length (Path n))"
  by (simp add: String_def prefix_bits_def min_def)

lemma length_Siblings [simp]: "length (Siblings n) = PrefixLenBits n"
  by (simp add: Siblings_def)

lemma Siblings_nth:
  assumes "i < PrefixLenBits n"
  shows "Siblings n ! i = sibling_at n (PrefixLenBits n - i)"
proof -
  let ?L = "PrefixLenBits n"
  have "rev [1..<Suc ?L] ! i = [1..<Suc ?L] ! (?L - Suc i)"
    using assms by (simp add: rev_nth del: upt_Suc)
  also have "\<dots> = 1 + (?L - Suc i)"
    using assms by (intro nth_upt) simp
  finally have "rev [1..<Suc ?L] ! i = ?L - i"
    using assms by simp
  then show ?thesis
    using assms by (simp add: Siblings_def del: upt_Suc)
qed

lemma sibling_at_sel [simp]:
  "PrefixLenBits (sibling_at n k) = k" "length (Path (sibling_at n k)) = length (Path n)"
  by (simp_all add: sibling_at_def Let_def pack_bits_def)

lemma length_String_sibling:
  "k \<le> 8 * length (Path n) \<Longrightarrow> length (String (sibling_at n k)) = k"
  by (simp add: length_String)

lemma distinct_map_length:
  "distinct (map (\<lambda>x. length (f x)) xs) \<Longrightarrow> distinct (map f xs)"
  by (induction xs) auto

lemma distinct_String_Siblings:
  assumes "PrefixLenBits n \<le> 8 * length (Path n)"
  shows "distinct (map String (Siblings n))"
proof (rule distinct_map_length)
  let ?ks = "rev [1..<Suc (PrefixLenBits n)]"
  have "map (\<lambda>k. length (String (sibling_at n k))) ?ks = ?ks"
    using assms by (intro map_idI) (auto simp: length_String_sibling simp del: upt_Suc)
  then have "map (\<lambda>x. length (String x)) (Siblings n) = ?ks"
    by (simp add: Siblings_def comp_def del: upt_Suc)
  then show "distinct (map (\<lambda>x. length (String x)) (Siblings n))"
    by (simp del: upt_Suc)
qed

lemma find_app:
  "find P (xs @ ys) = (case find P xs of None \<Rightarrow> find P ys | Some x \<Rightarrow> Some x)"
  by (induction xs) simp_all

lemma map_of_foldl_update:
  "map_of (foldl (\<lambda>m n. AList.update (f n) n m) m0 nodes) k =
     (case find (\<lambda>n. f n = k) (rev nodes) of Some n \<Rightarrow> Some n | None \<Rightarrow> map_of m0 k)"
proof (induction nodes arbitrary: m0)
  case Nil
  then show ?case by simp
next
  case (Cons a nodes)
  show ?case
    by (simp add: Cons.IH update_conv' find_app split: option.splits)
qed

lemma keys_update: "fst ` set (AList.update k v m) = insert k (fst ` set m)"
  by (induction m) auto

lemma keys_delete: "fst ` set (AList.delete k m) = fst ` set m - {k}"
  by (induction m) auto

lemma keys_foldl_update:
  "fst ` set (foldl (\<lambda>m n. AList.update (f n) n m) m0 nodes) = fst ` set m0 \<union> f ` set nodes"
  by (induction nodes arbitrary: m0) (simp_all add: keys_update)

lemma proof_elements_Cons:
  "proof_elements (a # sibs) m =
     (case map_of m (String a) of
        None \<Rightarrow> (None # fst (proof_elements sibs m), snd (proof_elements sibs m))
      | Some p \<Rightarrow>
          (Some (Hash p) # fst (proof_elements sibs (AList.delete (String a) m)),
           snd (proof_elements sibs (AList.delete (String a) m))))"
  by (simp split: option.splits prod.splits)

lemma proof_elements_length: "length (fst (proof_elements sibs m)) = length sibs"
  by (induction sibs arbitrary: m) (simp_all add: proof_elements_Cons split: option.splits del: proof_elements.simps(2))

lemma proof_elements_keys:
  "fst ` set (snd (proof_elements sibs m)) = fst ` set m - String ` set sibs"
proof (induction sibs arbitrary: m)
  case Nil
  then show ?case by simp
next
  case (Cons a sibs)
  show ?case
  proof (cases "map_of m (String a)")
    case None
    then have "String a \<notin> fst ` set m" by (simp add: map_of_eq_None_iff)
    with None Cons.IH [of m] show ?thesis
      by (auto simp: proof_elements_Cons simp del: proof_elements.simps(2))
  next
    case (Some p)
    with Cons.IH [of "AList.delete (String a) m"] show ?thesis
      by (auto simp: proof_elements_Cons keys_delete simp del: proof_elements.simps(2))
  qed
qed

lemma proof_elements_nth:
  "distinct (map String sibs) \<Longrightarrow> i < length sibs \<Longrightarrow>
   fst (proof_elements sibs m) ! i = map_option Hash (map_of m (String (sibs ! i)))"
proof (induction sibs arbitrary: m i)
  case Nil
  then show ?case by simp
next
  case (Cons a sibs)
  show ?case
  proof (cases i)
    case 0
    then show ?thesis
      by (simp add: proof_elements_Cons split: option.splits del: proof_elements.simps(2))
  next
    case (Suc j)
    with Cons.prems have j: "j < length sibs" and d: "distinct (map String sibs)"
      by auto
    from Cons.prems j have ne: "String (sibs ! j) \<noteq> String a"
      by (metis distinct.simps(2) list.simps(9) nth_mem imageI set_map)
    show ?thesis
    proof (cases "map_of m (String a)")
      case None
      with Cons.IH [OF d j, of m] Suc show ?thesis
        by (simp add: proof_elements_Cons del: proof_elements.simps(2))
    next
      case (Some p)
      with Cons.IH [OF d j, of "AList.delete (String a) m"] Suc ne show ?thesis
        by (simp add: proof_elements_Cons delete_conv' del: proof_elements.simps(2))
    qed
  qed
qed


lemma InclusionProof_split:
  assumes "tx s rv (Siblings (NewNodeIDFromHash idx)) = Inr nodes"
  shows "InclusionProof s rv idx =
     (let m = foldl (\<lambda>m n. AList.update (String (NodeID n)) n m) [] nodes;
          sibs = Siblings (NewNodeIDFromHash idx)
      in if length (snd (proof_elements sibs m)) \<noteq> 0
           then Inl (FailedToConsume (length nodes) (length (snd (proof_elements sibs m))))
         else Inr (fst (proof_elements sibs m)))"
  using assms by (simp add: InclusionProof_def Let_def split: prod.splits)

subsection \<open>The stratum's own root is not stored\<close>

text \<open>
  Claim C3. For a worker with a non-empty prefix, the \<open>setNode\<close> callback leaves the
  list of nodes to store as it is when called at the depth of the stratum's own root,
  \<open>|prefix| * 8\<close>, and appends the node when called at any greater depth; so after
  the calls of a whole HStar2 run the list has grown by exactly the nodes of the calls at
  the other depths, in order.
\<close>

theorem setNode_omits_stratum_root:
  assumes "prefix s \<noteq> []"
  shows "setNode env s ns (length (prefix s) * 8) i h = (None, ns)
       \<and> (\<forall>depth. depth > length (prefix s) * 8 \<longrightarrow>
            setNode env s ns depth i h = (None, ns @ [stored_node env s (depth, i, h)]))
       \<and> setNodes env s ns calls =
            ns @ map (stored_node env s) (filter (\<lambda>c. fst c \<noteq> length (prefix s) * 8) calls)"
  using assms setNodes_filter [OF assms, of env ns calls]
  by (simp add: setNode_def stored_node_def)

theorem setNode_omits_stratum_root_witness:
  "prefix w1 \<noteq> [] \<and> setNode env0 w1 [] 8 256 [7] = (None, [])
   \<and> setNode env0 w1 [] 9 256 [7] =
        (None, [\<lparr>NodeID = \<lparr>Path = [1, 0], PrefixLenBits = 9\<rparr>, Hash = [7], NodeRevision = 5\<rparr>])
   \<and> setNodes env0 w1 [] [(9, 256, [7]), (8, 256, [8])] =
        [\<lparr>NodeID = \<lparr>Path = [1, 0], PrefixLenBits = 9\<rparr>, Hash = [7], NodeRevision = 5\<rparr>]"
  using setNode_omits_stratum_root [of w1 env0 "[]" 256 "[7]" "[(9, 256, [7]), (8, 256, [8])]"]
  by (simp add: w1_def env0_def stored_node_def)

subsection \<open>Root at a revision\<close>

text \<open>
  Claim C4. \<open>RootAtRevision\<close> fails with \<open>ErrNoSuchRevision\<close> exactly when storage
  returns no node for the root node id. When storage returns more than one node, or a
  node whose id is not equivalent to the root id, or a node of a revision greater than
  the one asked for, it fails with one of the inconsistent-storage errors. When storage
  returns a single node with an equivalent id and a revision not greater than the one
  asked for, it returns that node's hash.
\<close>

theorem RootAtRevision_outcomes:
  "(RootAtRevision s rv = Inl ErrNoSuchRevision \<longleftrightarrow> tx s rv [NewEmptyNodeID 256] = Inr [])
   \<and> (\<forall>nodes. tx s rv [NewEmptyNodeID 256] = Inr nodes \<longrightarrow>
         (length nodes > 1 \<or>
           (\<exists>n \<in> set nodes. \<not> Equivalent (NodeID n) (NewEmptyNodeID 256) \<or> NodeRevision n > rv)
          \<longrightarrow> (\<exists>e. RootAtRevision s rv = Inl e \<and> InconsistentStorage e))
       \<and> (\<forall>n. nodes = [n] \<and> Equivalent (NodeID n) (NewEmptyNodeID 256) \<and> NodeRevision n \<le> rv
          \<longrightarrow> RootAtRevision s rv = Inr (Hash n)))"
  by (auto simp: RootAtRevision_def Let_def split: sum.splits list.splits)

theorem RootAtRevision_outcomes_witness:
  "RootAtRevision (reader_of []) 3 = Inl ErrNoSuchRevision
   \<and> (\<exists>e. RootAtRevision (reader_of [root_node 2, root_node 1]) 3 = Inl e \<and> InconsistentStorage e)
   \<and> (\<exists>e. RootAtRevision (reader_of [root_node 9]) 3 = Inl e \<and> InconsistentStorage e)
   \<and> RootAtRevision (reader_of [root_node 2]) 3 = Inr [171, 205]"
  using RootAtRevision_outcomes [of "reader_of []" 3]
        RootAtRevision_outcomes [of "reader_of [root_node 2, root_node 1]" 3]
        RootAtRevision_outcomes [of "reader_of [root_node 9]" 3]
        RootAtRevision_outcomes [of "reader_of [root_node 2]" 3]
  by (simp add: reader_of_def root_node_def Equivalent_def)

subsection \<open>Leaf queue sizes\<close>

text \<open>
  Claim C9, as amended. The worker of the bottom stratum, built with a plan of one depth,
  has a leaf queue of capacity exactly 1024. For a worker of an upper stratum, built with
  a plan of two or more depths whose first depth \<open>d\<close>, the worker's own stratum depth,
  is below 63, the size computed is \<open>2 ^ d\<close>, and when the worker is built its leaf
  queue has capacity exactly \<open>2 ^ d\<close>.
\<close>

theorem leafQueueSize_capacity:
  "(length ds = 1 \<longrightarrow>
      leafQueueSize ds = Inr 1024
      \<and> (\<exists>s. newLocalSubtreeWriter tid rv pfx ds = Inr s \<and> queueCap s = 1024))
   \<and> (length ds > 1 \<and> hd ds < 63 \<longrightarrow>
        leafQueueSize ds = Inr (2 ^ hd ds)
        \<and> (\<forall>s. newLocalSubtreeWriter tid rv pfx ds = Inr s \<longrightarrow> queueCap s = 2 ^ hd ds))"
proof (cases ds)
  case Nil
  then show ?thesis by simp
next
  case (Cons d rest)
  show ?thesis
  proof (cases "rest = []")
    case True
    with Cons show ?thesis
      by (simp add: leafQueueSize_def newLocalSubtreeWriter_def makechan_1024)
  next
    case False
    have size: "d < 63 \<Longrightarrow> leafQueueSize ds = Inr (2 ^ d)"
      using Cons False by (simp add: leafQueueSize_def sint_shift)
    have built: "d < 63 \<Longrightarrow> newLocalSubtreeWriter tid rv pfx ds =
                   (case makechan 8 (2 ^ d) of
                      Inl e \<Rightarrow> Inl e
                    | Inr c \<Rightarrow> Inr (SubtreeWriter tid pfx d [] c make_root_chan [] rv ds))"
      using size Cons by (simp add: newLocalSubtreeWriter_def split: sum.splits)
    have made: "makechan 8 (2 ^ d) = Inr (2 ^ d) \<or> makechan 8 (2 ^ d) = Inl PanicMakeChanSize"
      by (simp add: makechan_def)
    show ?thesis
      using Cons False size built made by auto
  qed
qed

theorem leafQueueSize_capacity_witness:
  "leafQueueSize [248] = Inr 1024 \<and> leafQueueSize [8, 248] = Inr 256
   \<and> (\<exists>s. newLocalSubtreeWriter 1 1 [] [248] = Inr s \<and> queueCap s = 1024)
   \<and> newLocalSubtreeWriter 1 1 [] [8, 248] =
        Inr (SubtreeWriter 1 [] 8 [] 256 make_root_chan [] 1 [8, 248])
   \<and> queueCap (SubtreeWriter 1 [] 8 [] 256 make_root_chan [] 1 [8, 248]) = 2 ^ 8"
proof -
  have b: "newLocalSubtreeWriter 1 1 [] [8, 248] =
             Inr (SubtreeWriter 1 [] 8 [] 256 make_root_chan [] 1 [8, 248])"
    by (simp add: leafQueueSize_def newLocalSubtreeWriter_def makechan_def maxAlloc_def
          hchanSize_def)
  show ?thesis
    using leafQueueSize_capacity [of "[248]" 1 1 "[]"]
      leafQueueSize_capacity [of "[8, 248]" 1 1 "[]"] b
    by simp
qed

text \<open>
  The claim as stated fails on the plan \<open>[8, 16, 232]\<close>: the worker of the middle
  stratum, which the root worker's \<open>getSubtree\<close> builds for a child prefix, is the worker
  of an upper stratum, and its leaf queue has \<open>2 ^ 16\<close> slots, one for each child it can
  have, not the \<open>2 ^ 8\<close> of the top stratum's depth.
\<close>

theorem leafQueueSize_counterexample:
  "newLocalSubtreeWriter 1 1 [] [8, 16, 232] =
     Inr (SubtreeWriter 1 [] 8 [] 256 make_root_chan [] 1 [8, 16, 232])
   \<and> getSubtree (SubtreeWriter 1 [] 8 [] 256 make_root_chan [] 1 [8, 16, 232]) [7] =
       Inr (SubtreeWriter 1 [7] 16 [] 65536 make_root_chan [] 1 [16, 232])
   \<and> queueCap (SubtreeWriter 1 [7] 16 [] 65536 make_root_chan [] 1 [16, 232]) \<noteq> 2 ^ 8"
  by (simp add: leafQueueSize_def newLocalSubtreeWriter_def getSubtree_def makechan_def
        maxAlloc_def hchanSize_def)

text \<open>
  Depths from 45 upwards are where the size computed does not give a queue with room for
  every child: up to 62 the channel of \<open>2 ^ d\<close> slots is out of range for \<open>make\<close>, at
  63 the shift gives a negative size, and from 64 on it gives 0, a queue without a
  buffer.
\<close>

lemma leafQueueSize_large_depths:
  "newLocalSubtreeWriter 1 1 [] [48, 208] = Inl PanicMakeChanSize
   \<and> newLocalSubtreeWriter 1 1 [] [62, 8] = Inl PanicMakeChanSize
   \<and> leafQueueSize [63, 193] = Inr (- (2 ^ 63))
   \<and> newLocalSubtreeWriter 1 1 [] [63, 193] = Inl PanicMakeChanSize
   \<and> leafQueueSize [64, 192] = Inr 0
   \<and> newLocalSubtreeWriter 1 1 [] [64, 192] =
        Inr (SubtreeWriter 1 [] 64 [] 0 make_root_chan [] 1 [64, 192])"
  by (simp add: leafQueueSize_def newLocalSubtreeWriter_def makechan_def maxAlloc_def
        hchanSize_def)

subsection \<open>Errors during finalisation\<close>

text \<open>
  Claim C2, as amended. For a worker with its root channel as constructed: when a producer
  drained from the leaf queue fails (all before it having succeeded), when HStar2 returns
  an error, when a storage read that HStar2 makes through \<open>getNode\<close> fails (all reads
  before it having succeeded, HStar2 handing back the errors of its reads), or when
  writing the nodes fails, the worker's finalisation ends with the storage as the worker
  found it, none of its pending nodes committed, and with that error as the one value on
  its closed root channel. A child's error is what the producer of its root yields, so it
  is delivered by the parent in turn. After \<open>CalculateRoot\<close> with a worker that fails in
  this way, the storage is what the transactions of the workers below it have left: the
  nodes they committed stay.
\<close>

theorem buildSubtree_error_aborts:
  assumes "root s = make_root_chan"
  shows "(\<forall>q1 p q2. leafQueue s = q1 @ p # q2 \<and> (\<forall>p' \<in> set q1. \<exists>ih. invoke crh p' = Inr ih)
            \<and> invoke crh p = Inl e \<longrightarrow> aborts_with env t crh s st e)
       \<and> (\<forall>leaves nodes reads calls.
            drainLeafQueue env crh (treeRevision s) (leafQueue s) [] [] = Inr (leaves, nodes)
            \<and> HStar2Nodes env (treeID s) (prefix s) (subtreeDepth s) leaves (getNode env t s st)
                = (reads, calls, Inl e)
            \<longrightarrow> aborts_with env t crh s st e)
       \<and> (\<forall>leaves nodes reads calls r r1 depth i r2 c.
            drainLeafQueue env crh (treeRevision s) (leafQueue s) [] [] = Inr (leaves, nodes)
            \<and> HStar2Nodes env (treeID s) (prefix s) (subtreeDepth s) leaves (getNode env t s st)
                = (reads, calls, r)
            \<and> hands_back_read_errors env
            \<and> reads = r1 @ (depth, i) # r2
            \<and> (\<forall>rd \<in> set r1. \<exists>h. getNode env t s st (fst rd) (snd rd) = Inr h)
            \<and> GetMerkleNodes t st (treeRevision s) [NewNodeIDFromBigInt env depth i (BitLen env)]
                = Inl c
            \<longrightarrow> aborts_with env t crh s st (StorageError c))
       \<and> (\<forall>leaves nodes reads calls r c st'.
            drainLeafQueue env crh (treeRevision s) (leafQueue s) [] [] = Inr (leaves, nodes)
            \<and> HStar2Nodes env (treeID s) (prefix s) (subtreeDepth s) leaves (getNode env t s st)
                = (reads, calls, Inr r)
            \<and> SetMerkleNodes t st (setNodes env s nodes calls) = (Some c, st')
            \<longrightarrow> aborts_with env t crh s st (StorageError c))
       \<and> (\<forall>roots cp h.
            map_of roots cp = Some \<lparr>buf = [\<lparr>root_hash = h, err = Some e\<rparr>], closed = True\<rparr>
            \<longrightarrow> invoke (childRootHash roots) (ChildRootProducer cp) = Inl e)
       \<and> (\<forall>st0 roots.
            CalculateRoot_children env t (children s) st0 = Some (st, roots)
            \<and> list_all (root_there roots) (leafQueue s)
            \<and> aborts_with env t (childRootHash roots) s st e
            \<longrightarrow> CalculateRoot env t s st0 =
                  Some (st, \<lparr>buf = [\<lparr>root_hash = None, err = Some e\<rparr>], closed = True\<rparr>))"
proof (intro conjI allI impI)
  fix q1 p q2
  assume "leafQueue s = q1 @ p # q2 \<and> (\<forall>p' \<in> set q1. \<exists>ih. invoke crh p' = Inr ih)
            \<and> invoke crh p = Inl e"
  then have "drainLeafQueue env crh (treeRevision s) (leafQueue s) [] [] = Inl e"
    by (simp add: drainLeafQueue_first_error)
  then have "fst (buildSubtree_tx env t crh s st) = Inl e"
    by (simp add: buildSubtree_tx_def)
  then show "aborts_with env t crh s st e" by (rule tx_error_aborts [OF assms])
next
  fix leaves nodes reads calls
  assume "drainLeafQueue env crh (treeRevision s) (leafQueue s) [] [] = Inr (leaves, nodes)
            \<and> HStar2Nodes env (treeID s) (prefix s) (subtreeDepth s) leaves (getNode env t s st)
                = (reads, calls, Inl e)"
  then have "fst (buildSubtree_tx env t crh s st) = Inl e"
    by (simp add: buildSubtree_tx_def)
  then show "aborts_with env t crh s st e" by (rule tx_error_aborts [OF assms])
next
  fix leaves nodes reads calls r r1 depth i r2 c
  assume h: "drainLeafQueue env crh (treeRevision s) (leafQueue s) [] [] = Inr (leaves, nodes)
            \<and> HStar2Nodes env (treeID s) (prefix s) (subtreeDepth s) leaves (getNode env t s st)
                = (reads, calls, r)
            \<and> hands_back_read_errors env
            \<and> reads = r1 @ (depth, i) # r2
            \<and> (\<forall>rd \<in> set r1. \<exists>h. getNode env t s st (fst rd) (snd rd) = Inr h)
            \<and> GetMerkleNodes t st (treeRevision s) [NewNodeIDFromBigInt env depth i (BitLen env)]
                = Inl c"
  then have "getNode env t s st depth i = Inl (StorageError c)"
    by (simp add: getNode_def)
  with h have "first_error (getNode env t s st) reads = Some (StorageError c)"
    by (simp add: first_error_append)
  with h have "r = Inl (StorageError c)"
    unfolding hands_back_read_errors_def by blast
  with h have "fst (buildSubtree_tx env t crh s st) = Inl (StorageError c)"
    by (simp add: buildSubtree_tx_def)
  then show "aborts_with env t crh s st (StorageError c)" by (rule tx_error_aborts [OF assms])
next
  fix leaves nodes reads calls r c st'
  assume "drainLeafQueue env crh (treeRevision s) (leafQueue s) [] [] = Inr (leaves, nodes)
            \<and> HStar2Nodes env (treeID s) (prefix s) (subtreeDepth s) leaves (getNode env t s st)
                = (reads, calls, Inr r)
            \<and> SetMerkleNodes t st (setNodes env s nodes calls) = (Some c, st')"
  then have "fst (buildSubtree_tx env t crh s st) = Inl (StorageError c)"
    by (simp add: buildSubtree_tx_def)
  then show "aborts_with env t crh s st (StorageError c)" by (rule tx_error_aborts [OF assms])
next
  fix roots :: "(bytes \<times> chan) list" and cp h
  assume "map_of roots cp = Some \<lparr>buf = [\<lparr>root_hash = h, err = Some e\<rparr>], closed = True\<rparr>"
  then show "invoke (childRootHash roots) (ChildRootProducer cp) = Inl e"
    by (simp add: childRootHash_def chan_recv_def)
next
  fix st0 roots
  assume "CalculateRoot_children env t (children s) st0 = Some (st, roots)
            \<and> list_all (root_there roots) (leafQueue s)
            \<and> aborts_with env t (childRootHash roots) s st e"
  then show "CalculateRoot env t s st0 =
               Some (st, \<lparr>buf = [\<lparr>root_hash = None, err = Some e\<rparr>], closed = True\<rparr>)"
    by (cases s) (simp add: aborts_with_def)
qed

theorem buildSubtree_error_aborts_witness:
  "root w2 = make_root_chan \<and> root w3 = make_root_chan
   \<and> CalculateRoot_children env0 tx_rejecting (children w2) [] = Some (nodes_of_01, roots_done)
   \<and> invoke (childRootHash roots_done) (ChildRootProducer [2]) = Inl (StorageError 13)
   \<and> buildSubtree env0 tx_rejecting (childRootHash roots_done) w2 nodes_of_01 =
       Some (nodes_of_01,
             set_root w2 \<lparr>buf = [\<lparr>root_hash = None, err = Some (StorageError 13)\<rparr>],
                           closed = True\<rparr>)
   \<and> CalculateRoot env0 tx_rejecting w2 [] =
       Some (nodes_of_01,
             \<lparr>buf = [\<lparr>root_hash = None, err = Some (StorageError 13)\<rparr>], closed = True\<rparr>)
   \<and> buildSubtree env_failing tx_ok crh0 w3 [] =
       Some ([], set_root w3 \<lparr>buf = [\<lparr>root_hash = None, err = Some (HStar2Error 3)\<rparr>],
                              closed = True\<rparr>)
   \<and> hands_back_read_errors env_reading
   \<and> buildSubtree env_reading tx_unreadable crh0 w3 [] =
       Some ([], set_root w3 \<lparr>buf = [\<lparr>root_hash = None, err = Some (StorageError 21)\<rparr>],
                              closed = True\<rparr>)
   \<and> buildSubtree env0 tx_failing crh0 w3 [] =
       Some ([], set_root w3 \<lparr>buf = [\<lparr>root_hash = None, err = Some (StorageError 13)\<rparr>],
                              closed = True\<rparr>)"
proof -
  let ?crh = "childRootHash roots_done"
  have f2: "root w2 = make_root_chan" by (simp add: w2_value)
  have f3: "root w3 = make_root_chan" by (simp add: w3_value)
  have kids: "CalculateRoot_children env0 tx_rejecting (children w2) [] =
                Some (nodes_of_01, roots_done)"
    unfolding nodes_of_01_def roots_done_def by code_simp
  have there: "list_all (root_there roots_done) (leafQueue w2)"
    unfolding roots_done_def by code_simp
  have q: "leafQueue w2 = [ChildRootProducer [1]] @ ChildRootProducer [2] # []"
    by (simp add: w2_value)
  have first: "\<forall>p' \<in> set [ChildRootProducer [1]]. \<exists>ih. invoke ?crh p' = Inr ih"
    by (simp add: childRootHash_def roots_done_def chan_recv_def)
  have c2: "map_of roots_done [2] =
              Some \<lparr>buf = [\<lparr>root_hash = None, err = Some (StorageError 13)\<rparr>], closed = True\<rparr>"
    by (simp add: roots_done_def)
  have up: "invoke ?crh (ChildRootProducer [2]) = Inl (StorageError 13)"
    using buildSubtree_error_aborts [OF f2, where e = "StorageError 13", THEN conjunct2,
        THEN conjunct2, THEN conjunct2, THEN conjunct2, THEN conjunct1, rule_format,
        of roots_done "[2]" None] c2
    by simp
  have ab: "aborts_with env0 tx_rejecting ?crh w2 nodes_of_01 (StorageError 13)"
    using buildSubtree_error_aborts [OF f2, of ?crh "StorageError 13" env0 tx_rejecting nodes_of_01,
        THEN conjunct1, rule_format, of "[ChildRootProducer [1]]" "ChildRootProducer [2]" "[]"]
      q first up
    by blast
  have whole: "CalculateRoot env0 tx_rejecting w2 [] =
              Some (nodes_of_01,
                    \<lparr>buf = [\<lparr>root_hash = None, err = Some (StorageError 13)\<rparr>], closed = True\<rparr>)"
    using buildSubtree_error_aborts [OF f2, of crh0 "StorageError 13" env0 tx_rejecting nodes_of_01,
        THEN conjunct2, THEN conjunct2, THEN conjunct2, THEN conjunct2, THEN conjunct2,
        rule_format, of "[]" roots_done]
      kids there ab
    by blast
  have hs: "aborts_with env_failing tx_ok crh0 w3 [] (HStar2Error 3)"
    using buildSubtree_error_aborts [OF f3, of crh0 "HStar2Error 3" env_failing tx_ok "[]",
        THEN conjunct2, THEN conjunct1]
    by (simp add: w3_value env_failing_def env0_def Let_def)
  have hb: "hands_back_read_errors env_reading"
    by (auto simp: hands_back_read_errors_def env_reading_def env0_def split: sum.splits)
  have dr: "drainLeafQueue env_reading crh0 (treeRevision w3) (leafQueue w3) [] [] =
              Inr ([\<lparr>Index = 260, LeafHash = [6]\<rparr>],
                   [\<lparr>NodeID = \<lparr>Path = [1, 4], PrefixLenBits = 16\<rparr>, Hash = [6], NodeRevision = 5\<rparr>])"
    by (simp add: w3_value env_reading_def env0_def Let_def)
  have gn: "getNode env_reading tx_unreadable w3 [] 9 1 = Inl (StorageError 21)"
    by (simp add: getNode_def tx_unreadable_def Let_def)
  have h2: "HStar2Nodes env_reading (treeID w3) (prefix w3) (subtreeDepth w3)
              [\<lparr>Index = 260, LeafHash = [6]\<rparr>] (getNode env_reading tx_unreadable w3 [])
              = ([(9, 1)], [], Inl (StorageError 21))"
    using gn by (simp add: env_reading_def w3_value)
  have rd: "GetMerkleNodes tx_unreadable [] (treeRevision w3)
              [NewNodeIDFromBigInt env_reading 9 1 (BitLen env_reading)] = Inl 21"
    by (simp add: tx_unreadable_def)
  have sp: "[(9 :: nat, 1 :: int)] = [] @ (9, 1) # []" by simp
  have none: "\<forall>rd \<in> set ([] :: (nat \<times> int) list).
                \<exists>h. getNode env_reading tx_unreadable w3 [] (fst rd) (snd rd) = Inr h"
    by simp
  have rdab: "aborts_with env_reading tx_unreadable crh0 w3 [] (StorageError 21)"
    using buildSubtree_error_aborts [OF f3, of crh0 "StorageError 21" env_reading tx_unreadable "[]",
        THEN conjunct2, THEN conjunct2, THEN conjunct1, rule_format,
        of "[\<lparr>Index = 260, LeafHash = [6]\<rparr>]" _ "[(9, 1)]" "[]" "Inl (StorageError 21)" "[]" 9 1 "[]" 21]
      dr h2 hb sp none rd
    by blast
  have wr: "aborts_with env0 tx_failing crh0 w3 [] (StorageError 13)"
    using buildSubtree_error_aborts [OF f3, of crh0 "StorageError 13" env0 tx_failing "[]",
        THEN conjunct2, THEN conjunct2, THEN conjunct2, THEN conjunct1]
    by (simp add: w3_value env0_def tx_failing_def Let_def)
  show ?thesis
    using f2 f3 kids up ab whole hs hb rdab wr by (simp add: aborts_with_def)
qed

text \<open>
  The claim as stated fails in its last part. Every worker runs its own transaction, so
  when the worker under \<open>02\<close> fails, and the root worker with it,
  \<open>CalculateRoot\<close> returns the error and the storage, empty before, holds the two nodes
  of revision 5 that the worker under \<open>01\<close> committed.
\<close>

theorem CalculateRoot_partial_revision_counterexample:
  "treeRevision w2 = 5
   \<and> SparseMerkleTreeWriter_CalculateRoot env0 tx_rejecting w2 [] =
       Some ((None, Some (StorageError 13)),
             [\<lparr>NodeID = \<lparr>Path = [1, 4], PrefixLenBits = 16\<rparr>, Hash = [6], NodeRevision = 5\<rparr>,
              \<lparr>NodeID = \<lparr>Path = [0, 0], PrefixLenBits = 9\<rparr>, Hash = [7], NodeRevision = 5\<rparr>])"
  by code_simp

subsection \<open>The root is delivered once\<close>

text \<open>
  Claim C10. For a worker with its root channel as constructed, finalisation completes
  and leaves exactly one value on the root channel, which is then closed: the computed
  root, or the error. The first call of \<open>RootHash\<close> afterwards returns that value, and
  every later call returns \<open>(nil, nil)\<close>.
\<close>

theorem RootHash_delivers_once:
  assumes "root s = make_root_chan"
  shows "\<exists>st' s'. buildSubtree env t crh s st = Some (st', s')
           \<and> root s' = \<lparr>buf = [computed_root env t crh s st], closed = True\<rparr>
           \<and> RootHash_calls (Suc n) s' =
               Some ((root_hash (computed_root env t crh s st), err (computed_root env t crh s st))
                       # replicate n (None, None),
                     set_root s drained)"
proof -
  let ?v = "computed_root env t crh s st"
  let ?s' = "set_root s \<lparr>buf = [?v], closed = True\<rparr>"
  have first: "RootHash ?s' = Some ((root_hash ?v, err ?v), set_root s drained)"
    by (simp add: RootHash_def chan_recv_def drained_def)
  have rest: "RootHash_calls n (set_root s drained) = Some (replicate n (None, None), set_root s drained)"
    by (rule RootHash_calls_drained) simp
  show ?thesis
    using buildSubtree_fresh [OF assms, of env t crh st] first rest by simp
qed

theorem RootHash_delivers_once_witness:
  "root w3 = make_root_chan
   \<and> (\<exists>st' s'. buildSubtree env0 tx_ok crh0 w3 [] = Some (st', s')
         \<and> root s' = \<lparr>buf = [\<lparr>root_hash = Some [8], err = None\<rparr>], closed = True\<rparr>
         \<and> RootHash_calls (Suc 2) s' =
             Some ((Some [8], None) # replicate 2 (None, None), set_root w3 drained))
   \<and> (\<exists>st' s'. buildSubtree env0 tx_failing crh0 w3 [] = Some (st', s')
         \<and> root s' = \<lparr>buf = [\<lparr>root_hash = None, err = Some (StorageError 13)\<rparr>], closed = True\<rparr>
         \<and> RootHash_calls (Suc 2) s' =
             Some ((None, Some (StorageError 13)) # replicate 2 (None, None), set_root w3 drained))"
proof -
  have f3: "root w3 = make_root_chan" by (simp add: w3_value)
  have v1: "computed_root env0 tx_ok crh0 w3 [] = \<lparr>root_hash = Some [8], err = None\<rparr>"
    by (simp add: computed_root_def runTX_def buildSubtree_tx_def w3_value env0_def tx_ok_def
          Let_def)
  have v2: "computed_root env0 tx_failing crh0 w3 [] =
              \<lparr>root_hash = None, err = Some (StorageError 13)\<rparr>"
    by (simp add: computed_root_def runTX_def buildSubtree_tx_def w3_value env0_def
          tx_failing_def Let_def)
  show ?thesis
    using f3 RootHash_delivers_once [OF f3, of env0 tx_ok crh0 "[]" 2]
      RootHash_delivers_once [OF f3, of env0 tx_failing crh0 "[]" 2]
    by (simp only: v1 v2 rootHashOrError.select_convs simp_thms)
qed

subsection \<open>Duplicate leaves in a batch\<close>

text \<open>
  Claim C1, as amended. For a batch of leaves that are all at the worker's absolute
  subtree depth, \<open>SetLeaves\<close> succeeds and puts one producer on the leaf queue for
  every call, in call order; from a queue that was empty before, the leaf list handed to
  HStar2 (like the list of leaf nodes to store) has one entry for every call, in call
  order. Two calls with the same index therefore give two entries with that index:
  nothing is removed before HStar2 runs.
\<close>

theorem leaf_queue_keeps_every_call:
  assumes "\<forall>l \<in> set ls. length (HashedKey l) * 8 = absSubtreeDepth s"
  shows "fst (SetLeaves s ls) = None
       \<and> leafQueue (snd (SetLeaves s ls)) = leafQueue s @ map producer_of ls
       \<and> (leafQueue s = [] \<longrightarrow>
            drainLeafQueue env crh rv (leafQueue (snd (SetLeaves s ls))) [] [] =
              Inr (map (leaf_of env) ls, map (leaf_node_of env rv) ls))"
  using assms SetLeaves_same_depth [of ls s] drainLeafQueue_leaves [of env crh rv ls "[]" "[]"]
  by (simp add: leafQueue_foldl_enqueue)

theorem leaf_queue_keeps_every_call_witness:
  "map (\<lambda>l. length (HashedKey l) * 8) batch_dup = [16, 16] \<and> absSubtreeDepth w1 = 16
   \<and> leafQueue w1 = []
   \<and> fst (SetLeaves w1 batch_dup) = None
   \<and> leafQueue (snd (SetLeaves w1 batch_dup)) = [LeafProducer [1, 4] [6], LeafProducer [1, 4] [7]]
   \<and> drainLeafQueue env0 crh0 5 (leafQueue (snd (SetLeaves w1 batch_dup))) [] [] =
       Inr (map (leaf_of env0) batch_dup, map (leaf_node_of env0 5) batch_dup)"
proof -
  have h: "\<forall>l \<in> set batch_dup. length (HashedKey l) * 8 = absSubtreeDepth w1"
    by (simp add: batch_dup_def w1_def absSubtreeDepth_def)
  have e: "leafQueue w1 = []" by (simp add: w1_def)
  have pq: "map producer_of batch_dup = [LeafProducer [1, 4] [6], LeafProducer [1, 4] [7]]"
    by (simp add: batch_dup_def producer_of_def)
  note T = leaf_queue_keeps_every_call [OF h, of env0 crh0 5]
  have q: "leafQueue (snd (SetLeaves w1 batch_dup)) =
             [LeafProducer [1, 4] [6], LeafProducer [1, 4] [7]]"
    using T e pq by simp
  have k: "map (\<lambda>l. length (HashedKey l) * 8) batch_dup = [16, 16]" "absSubtreeDepth w1 = 16"
    by (simp_all add: batch_dup_def w1_def absSubtreeDepth_def)
  show ?thesis
    using k e T q by blast
qed

text \<open>
  The claim as stated fails on the batch that sets the leaf \<open>0104\<close> to \<open>06\<close> and then
  to \<open>07\<close>: the leaf list handed to HStar2 holds both, under the same index.
\<close>

theorem leaf_queue_dedup_counterexample:
  "drainLeafQueue env0 crh0 5 (leafQueue (snd (SetLeaves w1 batch_dup))) [] [] =
     Inr ([\<lparr>Index = 260, LeafHash = [6]\<rparr>, \<lparr>Index = 260, LeafHash = [7]\<rparr>],
          [\<lparr>NodeID = \<lparr>Path = [1, 4], PrefixLenBits = 16\<rparr>, Hash = [6], NodeRevision = 5\<rparr>,
           \<lparr>NodeID = \<lparr>Path = [1, 4], PrefixLenBits = 16\<rparr>, Hash = [7], NodeRevision = 5\<rparr>])
   \<and> \<not> distinct (map Index [\<lparr>Index = 260, LeafHash = [6]\<rparr>, \<lparr>Index = 260, LeafHash = [7]\<rparr>])"
proof -
  have "SetLeaves w1 batch_dup = (None, foldl enqueue w1 (map producer_of batch_dup))"
    by (rule SetLeaves_same_depth) (simp add: batch_dup_def w1_def absSubtreeDepth_def)
  then have "leafQueue (snd (SetLeaves w1 batch_dup)) = map producer_of batch_dup"
    by (simp add: leafQueue_foldl_enqueue w1_def)
  then show ?thesis
    by (simp add: drainLeafQueue_leaves)
       (simp add: batch_dup_def leaf_of_def leaf_node_of_def env0_def)
qed

subsection \<open>Routing a leaf\<close>

text \<open>
  Claim C6, as amended. For a call \<open>SetLeaf(index, hash)\<close> on a subtree worker: if
  the depth of the index, \<open>8 * |index|\<close>, is less than the worker's absolute subtree
  depth, the call fails with the depth error and changes nothing. If it is greater, the
  child for the prefix \<open>index[:absDepth/8]\<close> is looked up. A child that is there is
  the one used: the call is delegated to it, no worker is made and no producer is queued.
  When none is there and one can be built for the rest of the stratum plan, it is built
  with the joined prefix and an empty queue, entered in the map, a producer for its root
  is put on this worker's queue, and the call is delegated to it. If the depth is equal,
  a producer that yields \<open>(index, hash)\<close> is put on the queue and the call succeeds.
\<close>

theorem SetLeaf_by_depth:
  "(length idx * 8 < absSubtreeDepth s \<longrightarrow>
      SetLeaf s idx h = (Some (DepthWantAtLeast (length idx * 8) (absSubtreeDepth s)), s))
   \<and> (length idx * 8 > absSubtreeDepth s \<longrightarrow>
        (\<forall>c. map_of (children s) (childPrefix s idx) = Some c \<longrightarrow>
           SetLeaf s idx h =
             (fst (SetLeaf c idx h), set_child s (childPrefix s idx) (snd (SetLeaf c idx h)))
           \<and> map fst (children (snd (SetLeaf s idx h))) = map fst (children s)
           \<and> leafQueue (snd (SetLeaf s idx h)) = leafQueue s)
      \<and> (\<forall>c. map_of (children s) (childPrefix s idx) = None
              \<and> getSubtree s (childPrefix s idx) = Inr c \<longrightarrow>
           prefix c = prefix s @ childPrefix s idx \<and> leafQueue c = [] \<and> children c = []
           \<and> fst (SetLeaf s idx h) = fst (SetLeaf c idx h)
           \<and> children (snd (SetLeaf s idx h)) =
                children s @ [(childPrefix s idx, snd (SetLeaf c idx h))]
           \<and> leafQueue (snd (SetLeaf s idx h)) =
                leafQueue s @ [ChildRootProducer (childPrefix s idx)]))
   \<and> (length idx * 8 = absSubtreeDepth s \<longrightarrow>
        SetLeaf s idx h = (None, enqueue s (LeafProducer idx h))
        \<and> leafQueue (enqueue s (LeafProducer idx h)) = leafQueue s @ [LeafProducer idx h]
        \<and> invoke crh (LeafProducer idx h) = Inr \<lparr>index = idx, hash = h\<rparr>)"
proof (intro conjI impI allI)
  fix c
  assume deep: "absSubtreeDepth s < length idx * 8"
    and new: "map_of (children s) (childPrefix s idx) = None
                \<and> getSubtree s (childPrefix s idx) = Inr c"
  let ?k = "childPrefix s idx"
  from new obtain s1 where s1: "getOrCreateChildSubtree s ?k = Inr (c, s1)"
    "children s1 = children s @ [(?k, c)]" "leafQueue s1 = leafQueue s @ [ChildRootProducer ?k]"
    using getOrCreate_new [of s ?k c] by blast
  note d = SetLeaf_deep_delegate [OF deep s1(1), of h]
  show "prefix c = prefix s @ ?k" "leafQueue c = []" "children c = []"
    using new getSubtree_new [of s ?k c] by simp_all
  show "fst (SetLeaf s idx h) = fst (SetLeaf c idx h)" by (simp add: d)
  have "?k \<notin> fst ` set (children s)"
    using new by (simp add: map_of_eq_None_iff)
  then show "children (snd (SetLeaf s idx h)) = children s @ [(?k, snd (SetLeaf c idx h))]"
    by (simp add: d s1 update_last)
  show "leafQueue (snd (SetLeaf s idx h)) = leafQueue s @ [ChildRootProducer ?k]"
    by (simp add: d s1)
next
  fix c
  assume deep: "absSubtreeDepth s < length idx * 8"
    and old: "map_of (children s) (childPrefix s idx) = Some c"
  let ?k = "childPrefix s idx"
  note d = SetLeaf_deep_delegate [OF deep getOrCreate_existing [OF old], of h]
  show "SetLeaf s idx h = (fst (SetLeaf c idx h), set_child s ?k (snd (SetLeaf c idx h)))"
    by (rule d)
  have "?k \<in> fst ` set (children s)"
    using old by (metis map_of_eq_None_iff option.distinct(1))
  then show "map fst (children (snd (SetLeaf s idx h))) = map fst (children s)"
    by (simp add: d update_keys)
  show "leafQueue (snd (SetLeaf s idx h)) = leafQueue s"
    by (simp add: d)
qed (simp_all add: SetLeaf_shallow SetLeaf_equal)

theorem SetLeaf_by_depth_witness:
  "SetLeaf w0 [] [9] = (Some (DepthWantAtLeast (length ([] :: bytes) * 8) (absSubtreeDepth w0)), w0)
   \<and> absSubtreeDepth w0 = 8
   \<and> fst (SetLeaf w0 [1, 4] [6]) = None
   \<and> leafQueue (snd (SetLeaf w0 [1, 4] [6])) = leafQueue w0 @ [ChildRootProducer (childPrefix w0 [1, 4])]
   \<and> childPrefix w0 [1, 4] = [1]
   \<and> leafQueue (snd (SetLeaf w2 [1, 5] [8])) = leafQueue w2
   \<and> map fst (children (snd (SetLeaf w2 [1, 5] [8]))) = map fst (children w2)
   \<and> SetLeaf w1 [1, 4] [6] = (None, enqueue w1 (LeafProducer [1, 4] [6]))"
proof -
  define c1 where "c1 = SubtreeWriter 1 [1] 8 [] 1024 make_root_chan [] 5 [8]"
  have d0: "absSubtreeDepth w0 = 8" and d2: "absSubtreeDepth w2 = 8"
    and dc: "absSubtreeDepth c1 = 16"
    by (simp_all add: absSubtreeDepth_def w0_def w2_value c1_def)

  have s1: "length ([] :: bytes) * 8 < absSubtreeDepth w0" by (simp add: d0)
  have shallow: "SetLeaf w0 [] [9] =
      (Some (DepthWantAtLeast (length ([] :: bytes) * 8) (absSubtreeDepth w0)), w0)"
    using SetLeaf_by_depth [of "[]" w0 "[9]" crh0] s1 by blast

  have n1: "absSubtreeDepth w0 < length [1, 4 :: 8 word] * 8" by (simp add: d0)
  have cp0: "childPrefix w0 [1, 4] = [1]" by (simp add: childPrefix_def d0)
  have n2: "map_of (children w0) (childPrefix w0 [1, 4]) = None" by (simp add: w0_def)
  have n3: "getSubtree w0 (childPrefix w0 [1, 4]) = Inr c1"
    by (simp add: cp0) (simp add: getSubtree_def newLocalSubtreeWriter_def leafQueueSize_def
          makechan_1024 w0_def c1_def)
  have n4: "length [1, 4 :: 8 word] * 8 = absSubtreeDepth c1" by (simp add: dc)
  have n5: "SetLeaf c1 [1, 4] [6] = (None, enqueue c1 (LeafProducer [1, 4] [6]))"
    using SetLeaf_by_depth [of "[1, 4]" c1 "[6]" crh0] n4 by blast
  have new: "fst (SetLeaf w0 [1, 4] [6]) = fst (SetLeaf c1 [1, 4] [6])
     \<and> leafQueue (snd (SetLeaf w0 [1, 4] [6])) =
         leafQueue w0 @ [ChildRootProducer (childPrefix w0 [1, 4])]"
    using SetLeaf_by_depth [of "[1, 4]" w0 "[6]" crh0] n1 n2 n3 by blast

  have o1: "absSubtreeDepth w2 < length [1, 5 :: 8 word] * 8" by (simp add: d2)
  have o2: "map_of (children w2) (childPrefix w2 [1, 5]) =
              Some (SubtreeWriter 1 [1] 8 [LeafProducer [1, 4] [6]] 1024 make_root_chan [] 5 [8])"
    by (simp add: childPrefix_def d2) (simp add: w2_value)
  have old: "leafQueue (snd (SetLeaf w2 [1, 5] [8])) = leafQueue w2
     \<and> map fst (children (snd (SetLeaf w2 [1, 5] [8]))) = map fst (children w2)"
    using SetLeaf_by_depth [of "[1, 5]" w2 "[8]" crh0] o1 o2 by blast

  have e1: "length [1, 4 :: 8 word] * 8 = absSubtreeDepth w1"
    by (simp add: absSubtreeDepth_def w1_def)
  have equal: "SetLeaf w1 [1, 4] [6] = (None, enqueue w1 (LeafProducer [1, 4] [6]))"
    using SetLeaf_by_depth [of "[1, 4]" w1 "[6]" crh0] e1 by blast
  show ?thesis using shallow d0 new n5 cp0 old equal by simp
qed

text \<open>
  The claim as stated fails on the bottom worker under \<open>01\<close> of the plan \<open>[8, 8]\<close>
  and the index \<open>010203\<close>, which is deeper than the worker's leaves: the plan has no
  stratum left for a child, the constructor panics at \<open>depths[0]\<close>, and nothing is
  delegated.
\<close>

theorem SetLeaf_delegation_counterexample:
  "absSubtreeDepth w3 < length [1, 2, 3 :: 8 word] * 8
   \<and> SetLeaf w3 [1, 2, 3] [9] = (Some PanicIndexOutOfRange, w3)
   \<and> map_of (children (snd (SetLeaf w3 [1, 2, 3] [9]))) (childPrefix w3 [1, 2, 3]) = None"
  by code_simp

subsection \<open>Inclusion proofs\<close>

text \<open>
  Claim C5. For a key of \<open>D = 8 * |key|\<close> bits, a successful \<open>InclusionProof\<close>
  returns exactly \<open>D\<close> elements; element \<open>i\<close> belongs to the sibling of depth
  \<open>D - i\<close>, so the leaf's sibling comes first and the sibling of the root's child last;
  and each element is the hash of the node storage returned for that sibling, if it
  returned one, and \<open>nil\<close> otherwise. When storage returns a node that is not one of the
  siblings asked for, the call fails, with the number of unused nodes in its error.
\<close>

theorem InclusionProof_shape:
  "(InclusionProof s rv idx = Inr r \<longrightarrow>
      length r = 8 * length idx
      \<and> (\<forall>i < 8 * length idx.
            PrefixLenBits (Siblings (NewNodeIDFromHash idx) ! i) = 8 * length idx - i)
      \<and> (\<forall>nodes. tx s rv (Siblings (NewNodeIDFromHash idx)) = Inr nodes \<longrightarrow>
            (\<forall>i < 8 * length idx.
               r ! i = map_option Hash
                         (returned_for nodes (Siblings (NewNodeIDFromHash idx) ! i)))))
   \<and> (\<forall>nodes. tx s rv (Siblings (NewNodeIDFromHash idx)) = Inr nodes
         \<and> (\<exists>n \<in> set nodes.
               String (NodeID n) \<notin> String ` set (Siblings (NewNodeIDFromHash idx)))
        \<longrightarrow> (\<exists>k > 0. InclusionProof s rv idx = Inl (FailedToConsume (length nodes) k)))"
proof (intro conjI impI allI)
  let ?nid = "NewNodeIDFromHash idx"
  let ?sibs = "Siblings ?nid"
  have L: "PrefixLenBits ?nid = 8 * length idx" and P: "Path ?nid = idx"
    by (simp_all add: NewNodeIDFromHash_def)
  have dist: "distinct (map String ?sibs)"
    by (rule distinct_String_Siblings) (simp add: L P)
  {
    fix i assume "i < 8 * length idx"
    then show "PrefixLenBits (?sibs ! i) = 8 * length idx - i"
      by (simp add: Siblings_nth L)
  }
  {
    assume ok: "InclusionProof s rv idx = Inr r"
    then obtain nodes where nodes: "tx s rv ?sibs = Inr nodes"
      by (cases "tx s rv ?sibs") (auto simp: InclusionProof_def Let_def)
    let ?m = "foldl (\<lambda>m n. AList.update (String (NodeID n)) n m) [] nodes"
    from ok have r: "r = fst (proof_elements ?sibs ?m)"
      by (simp add: InclusionProof_split [OF nodes] Let_def split: if_splits)
    show "length r = 8 * length idx"
      by (simp add: r proof_elements_length L)
    fix nodes' i
    assume n': "tx s rv ?sibs = Inr nodes'" and i: "i < 8 * length idx"
    from n' nodes have "nodes' = nodes" by simp
    moreover have "r ! i = map_option Hash (map_of ?m (String (?sibs ! i)))"
      unfolding r using dist i by (intro proof_elements_nth) (simp_all add: L)
    ultimately show "r ! i = map_option Hash (returned_for nodes' (?sibs ! i))"
      by (simp add: map_of_foldl_update returned_for_def split: option.splits)
  }
  {
    fix nodes
    assume a: "tx s rv ?sibs = Inr nodes
         \<and> (\<exists>n \<in> set nodes. String (NodeID n) \<notin> String ` set ?sibs)"
    let ?m = "foldl (\<lambda>m n. AList.update (String (NodeID n)) n m) [] nodes"
    from a obtain n where n: "n \<in> set nodes" "String (NodeID n) \<notin> String ` set ?sibs"
      by blast
    then have "String (NodeID n) \<in> fst ` set (snd (proof_elements ?sibs ?m))"
      by (simp add: proof_elements_keys keys_foldl_update)
    then have "snd (proof_elements ?sibs ?m) \<noteq> []" by auto
    then have "0 < length (snd (proof_elements ?sibs ?m))" by simp
    then show "\<exists>k > 0. InclusionProof s rv idx = Inl (FailedToConsume (length nodes) k)"
      using a by (auto simp: InclusionProof_split Let_def)
  }
qed


theorem InclusionProof_shape_witness:
  "InclusionProof (reader_of proof_nodes) 3 [5] =
     Inr [Some [9], None, None, None, None, None, None, Some [10]]
   \<and> length [Some [9 :: 8 word], None, None, None, None, None, None, Some [10]] =
       8 * length [5 :: 8 word]
   \<and> (\<exists>k > 0. InclusionProof (reader_of stray_nodes) 3 [5] =
                 Inl (FailedToConsume (length stray_nodes) k))"
proof -
  have ok: "InclusionProof (reader_of proof_nodes) 3 [5] =
     Inr [Some [9], None, None, None, None, None, None, Some [10]]"
    by code_simp
  have len: "length [Some [9 :: 8 word], None, None, None, None, None, None, Some [10]] =
       8 * length [5 :: 8 word]"
    using InclusionProof_shape [of "reader_of proof_nodes" 3 "[5]"
        "[Some [9], None, None, None, None, None, None, Some [10]]"] ok
    by blast
  have t: "tx (reader_of stray_nodes) 3 (Siblings (NewNodeIDFromHash [5])) = Inr stray_nodes"
    by (simp add: reader_of_def)
  have m: "hd stray_nodes \<in> set stray_nodes" by (simp add: stray_nodes_def)
  have stray: "String (NodeID (hd stray_nodes)) \<notin> String ` set (Siblings (NewNodeIDFromHash [5]))"
    by code_simp
  have "\<exists>k > 0. InclusionProof (reader_of stray_nodes) 3 [5] =
                 Inl (FailedToConsume (length stray_nodes) k)"
    using InclusionProof_shape [of "reader_of stray_nodes" 3 "[5]" "[]"] t m stray
    by blast
  with ok len show ?thesis by blast
qed

subsection \<open>Helper lemmas on compact ranges and tiles\<close>

lemma fst_collapse: "fst (collapse hs n st vs) = collapse0 hs st"
  by (induction hs n st vs rule: collapse.induct) simp_all

lemma fst_foldl_append_leaf:
  "fst (foldl (append_leaf hs) (st, n, vs) ls) =
     foldl (\<lambda>st leaf. collapse0 hs ((0, leaf) # st)) st ls"
proof (induction ls arbitrary: st n vs)
  case Nil
  then show ?case by simp
next
  case (Cons a ls)
  obtain st' vs' where c: "collapse hs n ((0, a) # st) (vs @ [((0, n), a)]) = (st', vs')"
    by (cases "collapse hs n ((0, a) # st) (vs @ [((0, n), a)])")
  then have "st' = collapse0 hs ((0, a) # st)"
    using fst_collapse [of hs n "(0, a) # st" "vs @ [((0, n), a)]"] by simp
  with c Cons.IH [of st' "Suc n" vs'] show ?case
    by (simp add: append_leaf_def)
qed

lemma collapse_no_merge:
  "(\<forall>e \<in> set base. l < fst e) \<Longrightarrow> collapse hs n ((l, h) # base) vs = ((l, h) # base, vs)"
  by (cases base) auto

lemma perfect_append:
  "length ls = 2 ^ d \<Longrightarrow> (\<forall>e \<in> set base. d \<le> fst e) \<Longrightarrow>
   foldl (append_leaf hs) (base, n0, vs) ls =
     (case collapse hs (n0 + 2 ^ d - 1) ((d, mth hs d ls) # base) (vs @ perfect_visits hs d n0 ls) of
        (st', vs') \<Rightarrow> (st', n0 + 2 ^ d, vs'))"
proof (induction d arbitrary: ls base n0 vs)
  case 0
  then obtain x where "ls = [x]" by (cases ls) auto
  then show ?case by (simp add: append_leaf_def)
next
  case (Suc d)
  let ?l1 = "take (2 ^ d) ls" and ?l2 = "drop (2 ^ d) ls"
  have len: "length ?l1 = 2 ^ d" "length ?l2 = 2 ^ d" using Suc.prems(1) by simp_all
  have b1: "\<forall>e \<in> set base. d \<le> fst e" and b1': "\<forall>e \<in> set base. d < fst e"
    using Suc.prems(2) by auto
  have first: "foldl (append_leaf hs) (base, n0, vs) ?l1 =
      ((d, mth hs d ?l1) # base, n0 + 2 ^ d, vs @ perfect_visits hs d n0 ?l1)"
    using Suc.IH [OF len(1) b1, of n0 vs] by (simp add: collapse_no_merge [OF b1'])
  have b2: "\<forall>e \<in> set ((d, mth hs d ?l1) # base). d \<le> fst e" using b1 by simp
  have second: "foldl (append_leaf hs) ((d, mth hs d ?l1) # base, n0 + 2 ^ d,
        vs @ perfect_visits hs d n0 ?l1) ?l2 =
      (case collapse hs (n0 + 2 ^ d + 2 ^ d - 1) ((d, mth hs d ?l2) # (d, mth hs d ?l1) # base)
              ((vs @ perfect_visits hs d n0 ?l1) @ perfect_visits hs d (n0 + 2 ^ d) ?l2) of
         (st', vs') \<Rightarrow> (st', n0 + 2 ^ d + 2 ^ d, vs'))"
    by (rule Suc.IH [OF len(2) b2])
  have "foldl (append_leaf hs) (base, n0, vs) ls =
        foldl (append_leaf hs) (foldl (append_leaf hs) (base, n0, vs) ?l1) ?l2"
    by (metis append_take_drop_id foldl_append)
  moreover have "n0 + 2 ^ d + 2 ^ d = n0 + 2 * 2 ^ d" by simp
  ultimately show ?case
    by (simp add: first second)
qed

lemma perfect_append_empty:
  assumes "length ls = 2 ^ d"
  shows "foldl (append_leaf hs) ([], 0, []) ls = ([(d, mth hs d ls)], 2 ^ d, perfect_visits hs d 0 ls)"
  using perfect_append [OF assms, of "[]" hs 0 "[]"] by simp



lemma dvd_half: "2 ^ Suc d dvd (n0::nat) \<Longrightarrow> 2 ^ d dvd n0"
  by (rule dvd_trans [of _ "2 ^ Suc d"]) simp_all

lemma visits_cases:
  "v \<in> set (perfect_visits hs (Suc d) n0 ls) \<Longrightarrow>
   v \<in> set (perfect_visits hs d n0 (take (2 ^ d) ls))
   \<or> v \<in> set (perfect_visits hs d (n0 + 2 ^ d) (drop (2 ^ d) ls))
   \<or> v = ((Suc d, (n0 + 2 ^ Suc d - 1) div 2 ^ Suc d), mth hs (Suc d) ls)"
  by (simp del: mth.simps power_Suc) blast

lemma root_index:
  assumes "2 ^ Suc d dvd (n0::nat)"
  shows "(n0 + 2 ^ Suc d - 1) div 2 ^ Suc d * 2 ^ Suc d = n0"
proof -
  define m :: nat where "m = 2 ^ Suc d"
  have m: "0 < m" by (simp add: m_def)
  from assms obtain k where k: "n0 = m * k" by (auto simp: dvd_def m_def)
  obtain r where r: "m = Suc r" using m by (cases m) auto
  have "n0 + m - 1 = r + k * m" by (simp add: k r)
  then have "(n0 + m - 1) div m = (r + k * m) div m" by simp
  also have "\<dots> = k + r div m" using m by (subst div_mult_self1) auto
  also have "r div m = 0" by (simp add: r)
  finally have "(n0 + m - 1) div m * m = n0" by (simp add: k)
  then show ?thesis unfolding m_def .
qed


lemma visits_bounds:
  "2 ^ d dvd n0 \<Longrightarrow> v \<in> set (perfect_visits hs d n0 ls) \<Longrightarrow>
   fst (fst v) \<le> d \<and> n0 \<le> snd (fst v) * 2 ^ fst (fst v)
   \<and> (snd (fst v) + 1) * 2 ^ fst (fst v) \<le> n0 + 2 ^ d"
proof (induction d arbitrary: n0 ls)
  case 0
  then show ?case by simp
next
  case (Suc d)
  have d1: "2 ^ d dvd n0" using Suc.prems(1) by (rule dvd_half)
  then have d2: "2 ^ d dvd n0 + 2 ^ d" by simp
  from visits_cases [OF Suc.prems(2)] consider
      (l) "v \<in> set (perfect_visits hs d n0 (take (2 ^ d) ls))"
    | (r) "v \<in> set (perfect_visits hs d (n0 + 2 ^ d) (drop (2 ^ d) ls))"
    | (t) "v = ((Suc d, (n0 + 2 ^ Suc d - 1) div 2 ^ Suc d), mth hs (Suc d) ls)"
    by blast
  then show ?case
  proof cases
    case l
    from Suc.IH [OF d1 l] show ?thesis by simp
  next
    case r
    from Suc.IH [OF d2 r] show ?thesis by simp
  next
    case t
    have "snd (fst v) * 2 ^ Suc d = n0"
      using root_index [OF Suc.prems(1)] by (simp add: t del: power_Suc)
    moreover have "fst (fst v) = Suc d" by (simp add: t)
    ultimately show ?thesis by (simp del: power_Suc add: algebra_simps)
  qed
qed


lemma visits_Suc_keys:
  "map fst (perfect_visits hs (Suc d) n0 ls) =
     map fst (perfect_visits hs d n0 (take (2 ^ d) ls))
     @ map fst (perfect_visits hs d (n0 + 2 ^ d) (drop (2 ^ d) ls))
     @ [(Suc d, (n0 + 2 ^ Suc d - 1) div 2 ^ Suc d)]"
  by (simp del: mth.simps power_Suc)

lemma visits_distinct:
  "2 ^ d dvd n0 \<Longrightarrow> distinct (map fst (perfect_visits hs d n0 ls))"
proof (induction d arbitrary: n0 ls)
  case 0
  then show ?case by simp
next
  case (Suc d)
  have d1: "2 ^ d dvd n0" using Suc.prems(1) by (rule dvd_half)
  then have d2: "2 ^ d dvd n0 + 2 ^ d" by simp
  let ?V1 = "perfect_visits hs d n0 (take (2 ^ d) ls)"
  let ?V2 = "perfect_visits hs d (n0 + 2 ^ d) (drop (2 ^ d) ls)"
  have disj: "fst v1 \<noteq> fst v2" if "v1 \<in> set ?V1" "v2 \<in> set ?V2" for v1 v2
  proof
    assume e: "fst v1 = fst v2"
    define l i where "l = fst (fst v2)" and "i = snd (fst v2)"
    have a: "(i + 1) * 2 ^ l \<le> n0 + 2 ^ d"
      using visits_bounds [OF d1 that(1)] e by (simp add: l_def i_def)
    have b: "n0 + 2 ^ d \<le> i * 2 ^ l"
      using visits_bounds [OF d2 that(2)] by (simp add: l_def i_def)
    have "(i + 1) * 2 ^ l \<le> i * 2 ^ l" using a b by (rule order_trans)
    then show False by simp
  qed
  have i: "set (map fst ?V1) \<inter> set (map fst ?V2) = {}"
  proof (rule ccontr)
    assume "set (map fst ?V1) \<inter> set (map fst ?V2) \<noteq> {}"
    then obtain k where "k \<in> fst ` set ?V1" "k \<in> fst ` set ?V2" by auto
    then obtain v1 v2 where "v1 \<in> set ?V1" "v2 \<in> set ?V2" "fst v1 = k" "fst v2 = k" by auto
    with disj show False by metis
  qed
  have t1: "(Suc d, k) \<notin> set (map fst ?V1)" for k
  proof
    assume "(Suc d, k) \<in> set (map fst ?V1)"
    then obtain v where "v \<in> set ?V1" "fst v = (Suc d, k)" by auto
    with visits_bounds [OF d1, of v hs "take (2 ^ d) ls"] show False by simp
  qed
  have t2: "(Suc d, k) \<notin> set (map fst ?V2)" for k
  proof
    assume "(Suc d, k) \<in> set (map fst ?V2)"
    then obtain v where "v \<in> set ?V2" "fst v = (Suc d, k)" by auto
    with visits_bounds [OF d2, of v hs "drop (2 ^ d) ls"] show False by simp
  qed
  show ?case
    unfolding visits_Suc_keys
    using Suc.IH [OF d1, of "take (2 ^ d) ls"] Suc.IH [OF d2, of "drop (2 ^ d) ls"] i t1 t2
    by (simp del: power_Suc)
qed

lemma interior_count_below:
  "d < D \<Longrightarrow> length (filter (interior D) (perfect_visits hs d n0 ls)) = 2 ^ d - 1"
proof (induction d arbitrary: n0 ls)
  case 0
  then show ?case by (simp add: interior_def)
next
  case (Suc d)
  then have "d < D" by simp
  have p: "(1::nat) \<le> 2 ^ d" by simp
  show ?case
    using Suc.IH [OF \<open>d < D\<close>, of n0 "take (2 ^ d) ls"]
      Suc.IH [OF \<open>d < D\<close>, of "n0 + 2 ^ d" "drop (2 ^ d) ls"] Suc.prems p
    by (simp add: interior_def del: mth.simps)
qed

lemma interior_count:
  "length (filter (interior d) (perfect_visits hs d n0 ls)) = 2 ^ d - 2"
proof (cases d)
  case 0
  then show ?thesis by (simp add: interior_def)
next
  case (Suc d')
  have p: "(1::nat) \<le> 2 ^ d'" by simp
  show ?thesis
    using interior_count_below [of d' d hs n0 "take (2 ^ d') ls"]
      interior_count_below [of d' d hs "n0 + 2 ^ d'" "drop (2 ^ d') ls"] p
    by (simp add: Suc interior_def del: mth.simps)
qed

lemma store_interior_filter:
  "foldl (store_interior d) m vs =
     foldl (\<lambda>m v. AList.update (fst v) (snd v) m) m (filter (interior d) vs)"
  by (induction vs arbitrary: m) (auto simp: store_interior_def interior_def split: prod.splits)

lemma update_fresh: "k \<notin> fst ` set m \<Longrightarrow> AList.update k v m = m @ [(k, v)]"
  by (induction m) auto

lemma foldl_update_distinct:
  "distinct (map fst xs) \<Longrightarrow> fst ` set xs \<inter> fst ` set m = {} \<Longrightarrow>
   foldl (\<lambda>m v. AList.update (fst v) (snd v) m) m xs = m @ xs"
proof (induction xs arbitrary: m)
  case Nil
  then show ?case by simp
next
  case (Cons x xs)
  have f: "fst x \<notin> fst ` set m" using Cons.prems(2) by auto
  have "fst ` set xs \<inter> fst ` set (m @ [x]) = {}"
    using Cons.prems by auto
  with Cons.IH [of "m @ [x]"] Cons.prems(1) show ?case
    by (simp add: update_fresh [OF f])
qed

lemma interior_nodes_of_perfect:
  assumes "2 ^ d dvd n0"
  shows "foldl (store_interior D) [] (perfect_visits hs d n0 ls) =
           filter (interior D) (perfect_visits hs d n0 ls)"
proof -
  have "distinct (map fst (filter (interior D) (perfect_visits hs d n0 ls)))"
    using visits_distinct [OF assms, of hs ls] by (rule distinct_map_filter)
  then show ?thesis
    using foldl_update_distinct [of "filter (interior D) (perfect_visits hs d n0 ls)" "[]"]
    by (simp add: store_interior_filter)
qed

lemma length_map_filter_all:
  "(\<forall>x \<in> set xs. f x \<noteq> None) \<Longrightarrow> length (List.map_filter f xs) = length xs"
  by (induction xs) (auto simp: map_filter_simps split: option.splits)

lemma filled_all_leaves:
  assumes "wf_tile t" "filled t" "i < 2 ^ tile_depth t"
  shows "map_of (tile_leaves t) (0, i) \<noteq> None"
proof -
  let ?K = "fst ` set (tile_leaves t)" and ?S = "Pair 0 ` {..<(2::nat) ^ tile_depth t}"
  have sub: "?K \<subseteq> ?S" using assms(1) by (auto simp: wf_tile_def image_iff)
  have "card ?K = length (tile_leaves t)"
    using assms(1) by (metis wf_tile_def distinct_card length_map set_map)
  then have cK: "card ?K = 2 ^ tile_depth t"
    using assms(2) by (simp add: filled_def)
  have cS: "card ?S = 2 ^ tile_depth t"
    by (simp add: card_image inj_on_def)
  have "?K = ?S"
  proof (rule card_subset_eq)
    show "finite ?S" by simp
    show "?K \<subseteq> ?S" by (rule sub)
    show "card ?K = card ?S" unfolding cK cS ..
  qed
  then have "(0, i) \<in> ?K" using assms(3) by simp
  then show ?thesis by (simp add: map_of_eq_None_iff)
qed

lemma length_leaf_hashes:
  assumes "wf_tile t" "filled t"
  shows "length (leaf_hashes t) = 2 ^ tile_depth t"
  using filled_all_leaves [OF assms]
  by (simp add: leaf_hashes_def length_map_filter_all)

lemma PopulateLogTile_root:
  "rootHash (PopulateLogTile hs t) = compact_root hs (leaf_hashes t)"
proof -
  obtain st n vs where f: "foldl (append_leaf hs) ([], 0, []) (leaf_hashes t) = (st, n, vs)"
    by (cases "foldl (append_leaf hs) ([], 0, []) (leaf_hashes t)")
  then have "st = foldl (\<lambda>st leaf. collapse0 hs ((0, leaf) # st)) [] (leaf_hashes t)"
    using fst_foldl_append_leaf [of hs "[]" 0 "[]" "leaf_hashes t"] by simp
  then show ?thesis
    by (simp add: PopulateLogTile_def f compact_root_def)
qed

lemma PopulateLogTile_full:
  assumes "wf_tile t" "filled t"
  shows "PopulateLogTile hs t =
     t\<lparr>internalNodes := filter (interior (tile_depth t))
                            (perfect_visits hs (tile_depth t) 0 (leaf_hashes t)),
       rootHash := mth hs (tile_depth t) (leaf_hashes t)\<rparr>"
  using assms
  by (simp add: PopulateLogTile_def perfect_append_empty [OF length_leaf_hashes [OF assms]]
        interior_nodes_of_perfect range_root_def)


subsection \<open>Helper lemmas on the tile cache\<close>

lemma setNodeHash_loaded_same:
  "split lay nodeID = (tp, sfx) \<Longrightarrow> map_of (tiles c) tp = Some (t, d) \<Longrightarrow>
   node_hash t sfx = Some h \<Longrightarrow> setNodeHash lay c nodeID h fetch = (None, c)"
  by (simp add: setNodeHash_def)

lemma setNodeHash_fetched_same:
  "split lay nodeID = (tp, sfx) \<Longrightarrow> map_of (tiles c) tp = None \<Longrightarrow>
   fetch_tile lay fetch tp = Inr t \<Longrightarrow> node_hash t sfx = Some h \<Longrightarrow>
   setNodeHash lay c nodeID h fetch = (None, c\<lparr>tiles := tiles c @ [(tp, t, False)]\<rparr>)"
  by (simp add: setNodeHash_def)

lemma dirty_tiles_append_clean [simp]:
  "dirty_tiles (c\<lparr>tiles := tiles c @ [(tp, t, False)]\<rparr>) = dirty_tiles c"
  by (simp add: dirty_tiles_def)

lemma flush_clean: "dirty_tiles c = [] \<Longrightarrow> flush lay hs c w st = (None, c, st)"
  by (simp add: flush_def)

lemma flush_dirty:
  "dirty_tiles c \<noteq> [] \<Longrightarrow>
   flush lay hs c w st =
     (case w (map (store_form lay hs) (dirty_tiles c)) st of
        (Some e, st') \<Rightarrow> (Some e, c, st')
      | (None, st') \<Rightarrow> (None, c\<lparr>tiles := map (\<lambda>e. (fst e, fst (snd e), False)) (tiles c)\<rparr>, st'))"
  by (simp add: flush_def)

lemma dirty_tiles_cleared [simp]:
  "dirty_tiles (c\<lparr>tiles := map (\<lambda>e. (fst e, fst (snd e), False)) (tiles c)\<rparr>) = []"
  by (simp add: dirty_tiles_def filter_empty_conv)

lemma map_of_cleared:
  "map_of (map (\<lambda>e. (fst e, fst (snd e), False)) al) k =
     map_option (\<lambda>e. (fst e, False)) (map_of al k)"
  by (induction al) auto

lemma GetSubtree_ok: "fetch_tile lay (GetSubtree st) tp =
   Inr (case map_of (stored st) tp of None \<Rightarrow> empty_tile lay tp | Some t \<Rightarrow> t)"
  by (simp add: fetch_tile_def GetSubtree_def split: option.splits)

lemma node_hash_put_hash [simp]: "node_hash (put_hash t sfx h) sfx = Some h"
  by (simp add: node_hash_def put_hash_def update_conv')

lemma write_round_settles:
  "settled lay nodeID h (fst (write_round lay hs nodeID h (c, st)))"
proof -
  obtain tp sfx where sp: "split lay nodeID = (tp, sfx)" by (cases "split lay nodeID")
  obtain e c1 where s1: "setNodeHash lay c nodeID h (GetSubtree st) = (e, c1)"
    by (cases "setNodeHash lay c nodeID h (GetSubtree st)")
  have loaded: "\<exists>e. map_of (tiles c1) tp = Some e \<and> node_hash (fst e) sfx = Some h"
    using s1
    by (auto simp: setNodeHash_def sp GetSubtree_ok update_conv' map_add_def
          split: option.splits if_splits) blast+
  show ?thesis
  proof (cases "dirty_tiles c1 = []")
    case True
    with loaded show ?thesis
      by (simp add: write_round_def s1 flush_clean settled_def sp)
  next
    case False
    with loaded show ?thesis
      by (auto simp: write_round_def s1 flush_dirty SetSubtrees_def settled_def sp map_of_cleared)
  qed
qed

lemma write_round_settled:
  assumes "settled lay nodeID h c"
  shows "write_round lay hs nodeID h (c, st) = (c, st)"
proof -
  obtain tp sfx where sp: "split lay nodeID = (tp, sfx)" by (cases "split lay nodeID")
  from assms obtain t d where "map_of (tiles c) tp = Some (t, d)" "node_hash t sfx = Some h"
    and clean: "dirty_tiles c = []"
    by (auto simp: settled_def sp)
  then have "setNodeHash lay c nodeID h (GetSubtree st) = (None, c)"
    using setNodeHash_loaded_same [OF sp] by simp
  then show ?thesis
    by (simp add: write_round_def flush_clean [OF clean])
qed

lemma write_rounds_fixed:
  "((write_round lay hs nodeID h) ^^ Suc n) (c, st) = write_round lay hs nodeID h (c, st)"
proof (induction n)
  case 0
  then show ?case by simp
next
  case (Suc n)
  obtain c1 st1 where r: "write_round lay hs nodeID h (c, st) = (c1, st1)"
    by (cases "write_round lay hs nodeID h (c, st)")
  then have "settled lay nodeID h c1"
    using write_round_settles [of lay nodeID h hs c st] by simp
  then have "write_round lay hs nodeID h (c1, st1) = (c1, st1)"
    by (rule write_round_settled)
  with Suc r show ?case by simp
qed

lemma write_round_calls:
  "length (write_calls (snd (write_round lay hs nodeID h (c, st)))) \<le> Suc (length (write_calls st))"
proof -
  obtain e c1 where s1: "setNodeHash lay c nodeID h (GetSubtree st) = (e, c1)"
    by (cases "setNodeHash lay c nodeID h (GetSubtree st)")
  show ?thesis
    by (cases "dirty_tiles c1 = []")
       (simp_all add: write_round_def s1 flush_clean flush_dirty SetSubtrees_def)
qed

lemma PopulateLogTile_keeps [simp]:
  "tile_prefix (PopulateLogTile hs t) = tile_prefix t"
  "tile_leaves (PopulateLogTile hs t) = tile_leaves t"
  "tile_depth (PopulateLogTile hs t) = tile_depth t"
  by (simp_all add: PopulateLogTile_def split: prod.splits)

lemma store_form_keeps [simp]:
  "tile_prefix (store_form lay hs t) = tile_prefix t"
  "tile_leaves (store_form lay hs t) = tile_leaves t"
  by (simp_all add: store_form_def)

lemma loaded_form_keeps [simp]:
  "tile_prefix (loaded_form hs t) = tile_prefix t"
  "tile_leaves (loaded_form hs t) = tile_leaves t"
  by (simp_all add: loaded_form_def)

lemma getNodeHash_fresh:
  "split lay nodeID = (tp, sfx) \<Longrightarrow>
   snd (getNodeHash lay hs \<lparr>tiles = []\<rparr> nodeID (GetSubtree st)) =
     \<lparr>tiles = [(tp, loaded_form hs (case map_of (stored st) tp of
                                        None \<Rightarrow> empty_tile lay tp | Some t \<Rightarrow> t), False)]\<rparr>"
  by (simp add: getNodeHash_def GetSubtree_ok loaded_form_def Let_def)

lemma fresh_round_unfold:
  assumes sp: "split lay nodeID = (tp, sfx)"
  shows "fresh_round lay hs nodeID h st =
     (let t = loaded_form hs (case map_of (stored st) tp of
                                None \<Rightarrow> empty_tile lay tp | Some t \<Rightarrow> t)
      in if node_hash t sfx = Some h then st
         else snd (SetSubtrees [store_form lay hs (put_hash t sfx h)] st))"
proof -
  let ?t = "loaded_form hs (case map_of (stored st) tp of
                                None \<Rightarrow> empty_tile lay tp | Some t \<Rightarrow> t)"
  let ?c0 = "\<lparr>tiles = [(tp, ?t, False)]\<rparr>"
  obtain r where g: "getNodeHash lay hs \<lparr>tiles = []\<rparr> nodeID (GetSubtree st) = (r, ?c0)"
    using getNodeHash_fresh [OF sp, of hs st]
    by (cases "getNodeHash lay hs \<lparr>tiles = []\<rparr> nodeID (GetSubtree st)") simp
  show ?thesis
  proof (cases "node_hash ?t sfx = Some h")
    case True
    then have "setNodeHash lay ?c0 nodeID h noFetch = (None, ?c0)"
      by (simp add: setNodeHash_def sp)
    moreover have "dirty_tiles ?c0 = []" by (simp add: dirty_tiles_def)
    ultimately show ?thesis
      using True by (simp add: fresh_round_def g flush_clean Let_def)
  next
    case False
    then have "setNodeHash lay ?c0 nodeID h noFetch =
                 (None, \<lparr>tiles = [(tp, put_hash ?t sfx h, True)]\<rparr>)"
      by (simp add: setNodeHash_def sp)
    moreover have "dirty_tiles \<lparr>tiles = [(tp, put_hash ?t sfx h, True)]\<rparr> = [put_hash ?t sfx h]"
      by (simp add: dirty_tiles_def)
    ultimately show ?thesis
      using False by (simp add: fresh_round_def g flush_dirty Let_def SetSubtrees_def)
  qed
qed

lemma map_of_store_ok:
  "store_ok st \<Longrightarrow> map_of (stored st) tp = Some t \<Longrightarrow> tile_prefix t = tp"
  by (auto simp: store_ok_def list_all_iff dest!: map_of_SomeD)

lemma list_all_update:
  "list_all P al \<Longrightarrow> P (k, v) \<Longrightarrow> list_all P (AList.update k v al)"
  by (induction al) auto

lemma fresh_round_stores:
  assumes "is_leaf_suffix (snd (split lay nodeID))" "store_ok st"
  shows "stored_leaf lay nodeID h (fresh_round lay hs nodeID h st)
       \<and> store_ok (fresh_round lay hs nodeID h st)"
proof -
  obtain tp sfx where sp: "split lay nodeID = (tp, sfx)" by (cases "split lay nodeID")
  let ?t0 = "case map_of (stored st) tp of None \<Rightarrow> empty_tile lay tp | Some t \<Rightarrow> t"
  let ?t = "loaded_form hs ?t0"
  have leaf: "is_leaf_suffix sfx" using assms(1) sp by simp
  have pre: "tile_prefix ?t = tp"
    using map_of_store_ok [OF assms(2)] by (simp add: empty_tile_def split: option.splits)
  show ?thesis
  proof (cases "node_hash ?t sfx = Some h")
    case True
    then have "fresh_round lay hs nodeID h st = st"
      by (simp add: fresh_round_unfold [OF sp] Let_def)
    moreover from True leaf have "stored_leaf lay nodeID h st"
      by (auto simp: stored_leaf_def sp node_hash_def empty_tile_def split: option.splits)
    ultimately show ?thesis using assms(2) by simp
  next
    case False
    let ?w = "store_form lay hs (put_hash ?t sfx h)"
    have fr: "fresh_round lay hs nodeID h st = snd (SetSubtrees [?w] st)"
      using False by (simp add: fresh_round_unfold [OF sp] Let_def)
    have wp: "tile_prefix ?w = tp" using pre by (simp add: put_hash_def)
    have wl: "map_of (tile_leaves ?w) sfx = Some h"
      using leaf by (simp add: put_hash_def update_conv')
    have "stored_leaf lay nodeID h (snd (SetSubtrees [?w] st))"
      using wp wl by (simp add: stored_leaf_def sp SetSubtrees_def update_conv')
    moreover have "store_ok (snd (SetSubtrees [?w] st))"
      using assms(2) wp
      by (simp add: store_ok_def SetSubtrees_def list_all_update)
    ultimately show ?thesis by (simp add: fr)
  qed
qed

lemma fresh_round_stored:
  assumes "is_leaf_suffix (snd (split lay nodeID))" "stored_leaf lay nodeID h st"
  shows "fresh_round lay hs nodeID h st = st"
proof -
  obtain tp sfx where sp: "split lay nodeID = (tp, sfx)" by (cases "split lay nodeID")
  from assms show ?thesis
    by (auto simp: fresh_round_unfold [OF sp] Let_def stored_leaf_def sp node_hash_def
          split: option.splits)
qed

lemma fresh_rounds_fixed:
  assumes "is_leaf_suffix (snd (split lay nodeID))" "store_ok st"
  shows "((fresh_round lay hs nodeID h) ^^ Suc n) st = fresh_round lay hs nodeID h st"
proof (induction n)
  case 0
  then show ?case by simp
next
  case (Suc n)
  have "fresh_round lay hs nodeID h (fresh_round lay hs nodeID h st) = fresh_round lay hs nodeID h st"
    using fresh_round_stores [OF assms, of h hs] assms(1) by (intro fresh_round_stored) simp_all
  with Suc show ?case by simp
qed

lemma fresh_round_calls:
  "length (write_calls (fresh_round lay hs nodeID h st)) \<le> Suc (length (write_calls st))"
proof -
  obtain tp sfx where sp: "split lay nodeID = (tp, sfx)" by (cases "split lay nodeID")
  show ?thesis
    by (simp add: fresh_round_unfold [OF sp] Let_def SetSubtrees_def)
qed


subsection \<open>Rehydrating a tile\<close>

text \<open>
  Claim C8. For a well-formed tile that is completely filled, \<open>PopulateLogTile\<close>
  produces exactly \<open>2 ^ depth - 2\<close> interior nodes, one entry a suffix, which is the
  tile's \<open>internalNodeCount\<close> when that holds the number of interior nodes of a full
  tile of its depth (254 at depth 8); its \<open>rootHash\<close> is the root of the compact range
  computed independently over the leaves in index order, and the Merkle tree hash of the
  leaves; every recorded node is at a level strictly between 0 and \<open>depth\<close>, so the
  tile's root is not among them. For a partially filled tile the interior nodes are left
  as they were, and the root is that of the compact range over the leaves.
\<close>

theorem PopulateLogTile_rehydrates:
  assumes "wf_tile t"
  shows "(filled t \<longrightarrow>
            length (internalNodes (PopulateLogTile hs t)) = 2 ^ tile_depth t - 2
          \<and> (internalNodeCount t = 2 ^ tile_depth t - 2 \<longrightarrow>
               length (internalNodes (PopulateLogTile hs t)) =
                 internalNodeCount (PopulateLogTile hs t))
          \<and> distinct (map fst (internalNodes (PopulateLogTile hs t)))
          \<and> rootHash (PopulateLogTile hs t) = compact_root hs (leaf_hashes t)
          \<and> rootHash (PopulateLogTile hs t) = mth hs (tile_depth t) (leaf_hashes t)
          \<and> (\<forall>k \<in> fst ` set (internalNodes (PopulateLogTile hs t)).
                0 < fst k \<and> fst k < tile_depth t)
          \<and> (tile_depth t, 0) \<notin> fst ` set (internalNodes (PopulateLogTile hs t)))
       \<and> (\<not> filled t \<longrightarrow>
            internalNodes (PopulateLogTile hs t) = internalNodes t
          \<and> rootHash (PopulateLogTile hs t) = compact_root hs (leaf_hashes t))"
proof (intro conjI impI)
  assume f: "filled t"
  note full = PopulateLogTile_full [OF assms f, of hs]
  let ?V = "perfect_visits hs (tile_depth t) 0 (leaf_hashes t)"
  show len: "length (internalNodes (PopulateLogTile hs t)) = 2 ^ tile_depth t - 2"
    by (simp add: full interior_count)
  show "length (internalNodes (PopulateLogTile hs t)) = internalNodeCount (PopulateLogTile hs t)"
    if "internalNodeCount t = 2 ^ tile_depth t - 2"
    using that len by (simp add: full)
  show "distinct (map fst (internalNodes (PopulateLogTile hs t)))"
    using visits_distinct [of "tile_depth t" 0 hs "leaf_hashes t"]
    by (simp add: full distinct_map_filter)
  show "rootHash (PopulateLogTile hs t) = mth hs (tile_depth t) (leaf_hashes t)"
    by (simp add: full)
  show keys: "\<forall>k \<in> fst ` set (internalNodes (PopulateLogTile hs t)). 0 < fst k \<and> fst k < tile_depth t"
    by (auto simp: full interior_def)
  then show "(tile_depth t, 0) \<notin> fst ` set (internalNodes (PopulateLogTile hs t))"
    by (metis fst_conv less_irrefl)
next
  assume "\<not> filled t"
  then show "internalNodes (PopulateLogTile hs t) = internalNodes t"
    by (simp add: PopulateLogTile_def split: prod.splits)
qed (rule PopulateLogTile_root)+



theorem PopulateLogTile_rehydrates_witness:
  "wf_tile t2 \<and> filled t2 \<and> wf_tile t3 \<and> \<not> filled t3
   \<and> length (internalNodes (PopulateLogTile hs0 t2)) = 2 ^ tile_depth t2 - 2
   \<and> internalNodes (PopulateLogTile hs0 t2) = [((1, 0), [100, 0, 1]), ((1, 1), [100, 2, 3])]
   \<and> rootHash (PopulateLogTile hs0 t2) = [100, 100, 0, 1, 100, 2, 3]
   \<and> compact_root hs0 (leaf_hashes t2) = [100, 100, 0, 1, 100, 2, 3]
   \<and> internalNodes (PopulateLogTile hs0 t3) = []
   \<and> rootHash (PopulateLogTile hs0 t3) = compact_root hs0 (leaf_hashes t3)"
proof -
  have w2: "wf_tile t2" and f2: "filled t2" and w3: "wf_tile t3" and f3: "\<not> filled t3"
    by (simp_all add: wf_tile_def filled_def t2_def t3_def)
  have v: "internalNodes (PopulateLogTile hs0 t2) = [((1, 0), [100, 0, 1]), ((1, 1), [100, 2, 3])]"
    "rootHash (PopulateLogTile hs0 t2) = [100, 100, 0, 1, 100, 2, 3]"
    "compact_root hs0 (leaf_hashes t2) = [100, 100, 0, 1, 100, 2, 3]"
    "internalNodes t3 = []"
    by code_simp+
  have a: "length (internalNodes (PopulateLogTile hs0 t2)) = 2 ^ tile_depth t2 - 2"
    using PopulateLogTile_rehydrates [OF w2, of hs0] f2 by blast
  have b: "internalNodes (PopulateLogTile hs0 t3) = internalNodes t3
           \<and> rootHash (PopulateLogTile hs0 t3) = compact_root hs0 (leaf_hashes t3)"
    using PopulateLogTile_rehydrates [OF w3, of hs0] f3 by blast
  show ?thesis
    using w2 f2 w3 f3 v a b by simp
qed

subsection \<open>Idempotent writes\<close>

text \<open>
  Claim C7. In the tile cache, \<open>setNodeHash\<close> with a hash equal to the entry already
  present marks no tile dirty: it leaves the cache as it is when the tile is loaded, and
  loads the tile clean when it has to fetch it. \<open>flush\<close> with no dirty
  tile returns without calling \<open>writeTiles\<close>, and otherwise hands \<open>writeTiles\<close> one
  batch, of the dirty tiles only. Hence, on one cache, every round of writing the same hash
  to the same node and flushing after the first changes neither cache nor storage, and any
  number of rounds adds at most one write to the storage, made in the first round. With a
  new cache in every round, as in \<open>TestIdempotentWrites\<close>, the same holds for a node
  that is a leaf of its tile, over a storage that keeps every tile under its own prefix.
\<close>

theorem tile_cache_idempotent_writes:
  "(\<forall>e. map_of (tiles c) (fst (split lay nodeID)) = Some e
         \<and> node_hash (fst e) (snd (split lay nodeID)) = Some h
       \<longrightarrow> setNodeHash lay c nodeID h fetch = (None, c))
   \<and> (\<forall>t. map_of (tiles c) (fst (split lay nodeID)) = None
         \<and> fetch_tile lay fetch (fst (split lay nodeID)) = Inr t
         \<and> node_hash t (snd (split lay nodeID)) = Some h
       \<longrightarrow> fst (setNodeHash lay c nodeID h fetch) = None
           \<and> dirty_tiles (snd (setNodeHash lay c nodeID h fetch)) = dirty_tiles c)
   \<and> (dirty_tiles c = [] \<longrightarrow> flush lay hs c w st = (None, c, st))
   \<and> (dirty_tiles c \<noteq> [] \<longrightarrow>
        flush lay hs c w st =
          (case w (map (store_form lay hs) (dirty_tiles c)) st of
             (Some e, st') \<Rightarrow> (Some e, c, st')
           | (None, st') \<Rightarrow>
               (None, c\<lparr>tiles := map (\<lambda>e. (fst e, fst (snd e), False)) (tiles c)\<rparr>, st')))
   \<and> ((write_round lay hs nodeID h ^^ Suc n) (c, ts) = write_round lay hs nodeID h (c, ts))
   \<and> length (write_calls (snd ((write_round lay hs nodeID h ^^ n) (c, ts))))
        \<le> Suc (length (write_calls ts))
   \<and> (is_leaf_suffix (snd (split lay nodeID)) \<and> store_ok ts \<longrightarrow>
        (fresh_round lay hs nodeID h ^^ Suc n) ts = fresh_round lay hs nodeID h ts
        \<and> length (write_calls ((fresh_round lay hs nodeID h ^^ n) ts))
             \<le> Suc (length (write_calls ts)))"
proof (intro conjI impI allI)
  fix e
  assume a: "map_of (tiles c) (fst (split lay nodeID)) = Some e
               \<and> node_hash (fst e) (snd (split lay nodeID)) = Some h"
  obtain tp sfx where sp: "split lay nodeID = (tp, sfx)" by (cases "split lay nodeID")
  obtain t d where e: "e = (t, d)" by (cases e)
  from a show "setNodeHash lay c nodeID h fetch = (None, c)"
    using setNodeHash_loaded_same [OF sp, where c = c and t = t and d = d and h = h
        and fetch = fetch] by (simp add: sp e)
next
  fix t
  assume a: "map_of (tiles c) (fst (split lay nodeID)) = None
         \<and> fetch_tile lay fetch (fst (split lay nodeID)) = Inr t
         \<and> node_hash t (snd (split lay nodeID)) = Some h"
  obtain tp sfx where sp: "split lay nodeID = (tp, sfx)" by (cases "split lay nodeID")
  from a have r: "setNodeHash lay c nodeID h fetch = (None, c\<lparr>tiles := tiles c @ [(tp, t, False)]\<rparr>)"
    using setNodeHash_fetched_same [OF sp, where c = c and t = t and h = h and fetch = fetch]
    by (simp add: sp)
  show "fst (setNodeHash lay c nodeID h fetch) = None" by (simp add: r)
  show "dirty_tiles (snd (setNodeHash lay c nodeID h fetch)) = dirty_tiles c" by (simp add: r)
next
  show "length (write_calls (snd ((write_round lay hs nodeID h ^^ n) (c, ts))))
          \<le> Suc (length (write_calls ts))"
  proof (cases n)
    case 0
    then show ?thesis by simp
  next
    case (Suc m)
    then show ?thesis
      using write_rounds_fixed [where lay = lay and hs = hs and nodeID = nodeID and h = h and n = m
          and c = c and st = ts]
        write_round_calls [where lay = lay and hs = hs and nodeID = nodeID and h = h and c = c
          and st = ts]
      by simp
  qed
next
  assume a: "is_leaf_suffix (snd (split lay nodeID)) \<and> store_ok ts"
  then show "(fresh_round lay hs nodeID h ^^ Suc n) ts = fresh_round lay hs nodeID h ts"
    using fresh_rounds_fixed [where lay = lay and hs = hs and nodeID = nodeID and h = h and n = n
        and st = ts] by blast
  show "length (write_calls ((fresh_round lay hs nodeID h ^^ n) ts)) \<le> Suc (length (write_calls ts))"
  proof (cases n)
    case 0
    then show ?thesis by simp
  next
    case (Suc m)
    then show ?thesis
      using a fresh_rounds_fixed [where lay = lay and hs = hs and nodeID = nodeID and h = h and n = m
          and st = ts]
        fresh_round_calls [where lay = lay and hs = hs and nodeID = nodeID and h = h and st = ts]
      by simp
  qed
next
  assume "dirty_tiles c = []"
  then show "flush lay hs c w st = (None, c, st)" by (rule flush_clean)
next
  assume "dirty_tiles c \<noteq> []"
  then show "flush lay hs c w st =
          (case w (map (store_form lay hs) (dirty_tiles c)) st of
             (Some e, st') \<Rightarrow> (Some e, c, st')
           | (None, st') \<Rightarrow>
               (None, c\<lparr>tiles := map (\<lambda>e. (fst e, fst (snd e), False)) (tiles c)\<rparr>, st'))"
    by (rule flush_dirty)
next
  show "(write_round lay hs nodeID h ^^ Suc n) (c, ts) = write_round lay hs nodeID h (c, ts)"
    by (rule write_rounds_fixed)
qed

theorem tile_cache_idempotent_writes_witness:
  "(write_round lay8 hs0 inner_id [77] ^^ Suc 2) (cache0, store0) =
     write_round lay8 hs0 inner_id [77] (cache0, store0)
   \<and> length (write_calls (snd (write_round lay8 hs0 inner_id [77] (cache0, store0)))) = 1
   \<and> is_leaf_suffix (snd (split lay8 leaf_id)) \<and> store_ok store0
   \<and> (fresh_round lay8 hs0 leaf_id [77] ^^ Suc 2) store0 = fresh_round lay8 hs0 leaf_id [77] store0
   \<and> length (write_calls (fresh_round lay8 hs0 leaf_id [77] store0)) = 1"
proof -
  have l: "is_leaf_suffix (snd (split lay8 leaf_id))" and ok: "store_ok store0"
    by code_simp+
  have n1: "length (write_calls (snd (write_round lay8 hs0 inner_id [77] (cache0, store0)))) = 1"
    by code_simp
  have n2: "length (write_calls (fresh_round lay8 hs0 leaf_id [77] store0)) = 1"
    by code_simp
  note T = tile_cache_idempotent_writes [where lay = lay8 and hs = hs0 and n = 2 and h = "[77]"
      and c = cache0 and fetch = noFetch and w = SetSubtrees and st = store0]
  have a: "(write_round lay8 hs0 inner_id [77] ^^ Suc 2) (cache0, store0) =
     write_round lay8 hs0 inner_id [77] (cache0, store0)"
    using T [where nodeID = inner_id and ts = store0] by blast
  have b: "(fresh_round lay8 hs0 leaf_id [77] ^^ Suc 2) store0 = fresh_round lay8 hs0 leaf_id [77] store0"
    using T [where nodeID = leaf_id and ts = store0] l ok by blast
  show ?thesis
    using a b l ok n1 n2 by blast
qed


end
